theory Spec2Isabelle
  imports Complex_Main
begin

section \<open>Numbers\<close>

text \<open>
  The program computes in C++ \<^verbatim>\<open>float\<close>. Coordinates, angles and distances are
  modelled as real numbers: rounding, NaN and signed zeros are not part of the model.
  The one non-finite value the source writes out,
  \<^verbatim>\<open>std::numeric_limits<float>::infinity()\<close>, is kept: a value of type \<open>efloat\<close> is a
  finite real or plus infinity, ordered as IEEE orders them.
\<close>

datatype efloat = Fin real | PInf

instantiation efloat :: linorder
begin

fun less_eq_efloat :: "efloat \<Rightarrow> efloat \<Rightarrow> bool" where
  "less_eq_efloat (Fin a) (Fin b) = (a \<le> b)"
| "less_eq_efloat (Fin a) PInf = True"
| "less_eq_efloat PInf (Fin b) = False"
| "less_eq_efloat PInf PInf = True"

definition less_efloat :: "efloat \<Rightarrow> efloat \<Rightarrow> bool" where
  "less_efloat a b = (a \<le> b \<and> \<not> b \<le> a)"

instance
proof
  fix a b c :: efloat
  show "(a < b) = (a \<le> b \<and> \<not> b \<le> a)"
    by (simp add: less_efloat_def)
  show "a \<le> a"
    by (cases a) simp_all
  show "a \<le> b \<Longrightarrow> b \<le> c \<Longrightarrow> a \<le> c"
    by (cases a; cases b; cases c) simp_all
  show "a \<le> b \<Longrightarrow> b \<le> a \<Longrightarrow> a = b"
    by (cases a; cases b) simp_all
  show "a \<le> b \<or> b \<le> a"
    by (cases a; cases b) auto
qed

end

section \<open>The frontier: \<^verbatim>\<open>PathQueue\<close> (path_queue.cpp)\<close>

text \<open>
  The class keeps two parallel vectors, \<^verbatim>\<open>paths\<close> and \<^verbatim>\<open>costs\<close>, and the capacity
  \<^verbatim>\<open>PATH_QUEUE_LIMIT\<close>. The element type of \<^verbatim>\<open>paths\<close> is \<^verbatim>\<open>Path*\<close>; the model stores
  the pointed-to path itself, as a value (type parameter \<open>'p\<close>): every pointer in the
  queue is taken to address a live path of its own, which is the ownership the
  specification describes. The lifetime of the C++ objects whose addresses the
  search stores is outside the model.

  Reading a vector out of range is undefined behaviour in C++; in the model each such
  access is a branch that returns an error.
\<close>

datatype error =
    EmptyQueueAccess      \<comment> \<open>\<^verbatim>\<open>front()\<close> or \<^verbatim>\<open>erase(begin())\<close> on an empty frontier\<close>
  | QueueIndexOutOfRange  \<comment> \<open>\<^verbatim>\<open>paths[i]\<close> or \<^verbatim>\<open>costs[i]\<close> with \<open>i\<close> not below the size\<close>
  | EmptyPathBack         \<comment> \<open>\<^verbatim>\<open>waypoints.back()\<close> on a path without waypoints\<close>
  | PoolIndexOutOfRange   \<comment> \<open>\<^verbatim>\<open>this->waypoints[k]\<close> with \<open>k\<close> not below the pool size\<close>

record 'p PathQueue =
  paths :: "'p list"
  costs :: "efloat list"
  PATH_QUEUE_LIMIT :: nat

text \<open>The constructor \<^verbatim>\<open>PathQueue(limit)\<close>: both vectors empty.\<close>

definition newPathQueue :: "nat \<Rightarrow> 'p PathQueue" where
  "newPathQueue limit = \<lparr>paths = [], costs = [], PATH_QUEUE_LIMIT = limit\<rparr>"

text \<open>
  \<^verbatim>\<open>getWorstPath\<close>: the index starts at 0 and the loop runs \<open>i\<close> over
  \<open>0 ..< costs.size()\<close>, moving to \<open>i\<close> when \<open>costs[i] > costs[worst]\<close>. Both reads are
  in range whenever the body runs. \<open>worst_upto cs n\<close> is the value of the index after
  the first \<open>n\<close> iterations.
\<close>

definition worst_upto :: "efloat list \<Rightarrow> nat \<Rightarrow> nat" where
  "worst_upto cs n = foldl (\<lambda>w i. if cs ! i > cs ! w then i else w) 0 [0..<n]"

definition getWorstPath :: "'p PathQueue \<Rightarrow> nat" where
  "getWorstPath q = worst_upto (costs q) (length (costs q))"

text \<open>\<^verbatim>\<open>getBestPath\<close>: the same scan with \<open><\<close>.\<close>

definition best_upto :: "efloat list \<Rightarrow> nat \<Rightarrow> nat" where
  "best_upto cs n = foldl (\<lambda>b i. if cs ! i < cs ! b then i else b) 0 [0..<n]"

definition getBestPath :: "'p PathQueue \<Rightarrow> nat" where
  "getBestPath q = best_upto (costs q) (length (costs q))"

text \<open>
  \<^verbatim>\<open>addNewPath\<close>. At capacity it reads \<^verbatim>\<open>costs[worst_path_index]\<close> and writes both
  vectors at that index; the index is out of range exactly when the queue is empty
  (capacity 0).
\<close>

definition addNewPath :: "'p PathQueue \<Rightarrow> 'p \<Rightarrow> efloat \<Rightarrow> error + (bool \<times> 'p PathQueue)" where
  "addNewPath q new_path new_cost =
     (if length (paths q) \<ge> PATH_QUEUE_LIMIT q then
        (let worst_path_index = getWorstPath q in
         if worst_path_index < length (costs q) \<and> worst_path_index < length (paths q) then
           (if costs q ! worst_path_index > new_cost then
              Inr (True, q\<lparr>paths := (paths q)[worst_path_index := new_path],
                            costs := (costs q)[worst_path_index := new_cost]\<rparr>)
            else Inr (False, q))
         else Inl QueueIndexOutOfRange)
      else Inr (True, q\<lparr>paths := paths q @ [new_path], costs := costs q @ [new_cost]\<rparr>))"

text \<open>The class invariant: the two vectors have the same length.\<close>

definition wf_queue :: "'p PathQueue \<Rightarrow> bool" where
  "wf_queue q = (length (paths q) = length (costs q))"

section \<open>Geometry and the data of the search (tree_search.cpp)\<close>

text \<open>
  \<^verbatim>\<open>atan2\<close> of the C library, on real numbers: the angle of the point \<open>(x, y)\<close> in
  \<open>(-\<pi>, \<pi>]\<close>, and 0 at the origin.
\<close>

definition atan2 :: "real \<Rightarrow> real \<Rightarrow> real" where
  "atan2 y x =
     (if 0 < x then arctan (y / x)
      else if x < 0 then (if 0 \<le> y then arctan (y / x) + pi else arctan (y / x) - pi)
      else if 0 < y then pi / 2
      else if y < 0 then - (pi / 2)
      else 0)"

text \<open>
  Modelled from the spec: the headers that declare the data types are not among the
  source files. The records follow the data model of the specification and the
  members the two source files read: \<^verbatim>\<open>Cone\<close> through \<^verbatim>\<open>x\<close> and \<^verbatim>\<open>y\<close>, \<^verbatim>\<open>Point\<close>
  through \<^verbatim>\<open>p[0]\<close> and \<^verbatim>\<open>p[1]\<close>, \<^verbatim>\<open>Waypoint\<close> through \<^verbatim>\<open>x\<close>, \<^verbatim>\<open>y\<close> and
  \<^verbatim>\<open>heading\<close>, \<^verbatim>\<open>Path\<close> through its vector \<^verbatim>\<open>waypoints\<close>, \<^verbatim>\<open>TreeSearchParams\<close>
  through the ten fields the specification lists. The three counters among them are
  natural numbers.
\<close>

record Cone =
  cone_x :: real
  cone_y :: real

type_synonym Point = "real \<times> real"

record Waypoint =
  wp_x :: real
  wp_y :: real
  wp_heading :: real

record Path =
  waypoints :: "Waypoint list"

record TreeSearchParams =
  field_of_view :: real
  distance :: real
  triangulation_radius :: real
  triangulation_min_cone_dist :: real
  triangulation_min_waypoint_dist :: real
  path_queue_limit :: nat
  max_search_iterations :: nat
  max_waypoints_per_path :: nat
  waypoint_field_of_view :: real
  waypoint_distance :: real

record TreeSearch =
  ts_params :: TreeSearchParams
  ts_cones :: "Cone list"
  ts_waypoints :: "Point list"

subsection \<open>\<^verbatim>\<open>filterLocal\<close>\<close>

text \<open>
  The two six-argument overloads have the same loop body: from the point \<open>(px, py)\<close>
  it computes \<^verbatim>\<open>dx\<close>, \<^verbatim>\<open>dy\<close>, \<^verbatim>\<open>dist\<close> and \<^verbatim>\<open>angle\<close>, applies the two \<^verbatim>\<open>if\<close>
  statements to \<^verbatim>\<open>angle\<close> one after the other, and tests
  \<^verbatim>\<open>fabs(angle) <= field_of_view / 2 && dist <= distance\<close>. \<open>in_view\<close> is that test.
\<close>

definition in_view :: "real \<Rightarrow> real \<Rightarrow> real \<Rightarrow> real \<Rightarrow> real \<Rightarrow> real \<Rightarrow> real \<Rightarrow> bool" where
  "in_view px py fov maxdist x y heading =
     (let dx = px - x;
          dy = py - y;
          dist = sqrt (dx * dx + dy * dy);
          angle = atan2 dy dx - heading;
          angle = (if angle < - pi then angle + 2 * pi else angle);
          angle = (if angle > pi then angle - 2 * pi else angle)
      in \<bar>angle\<bar> \<le> fov / 2 \<and> dist \<le> maxdist)"

text \<open>The overload on cones: a range-for loop that appends the accepted cone.\<close>

definition filterLocal_cones ::
    "Cone list \<Rightarrow> real \<Rightarrow> real \<Rightarrow> real \<Rightarrow> real \<Rightarrow> real \<Rightarrow> Cone list" where
  "filterLocal_cones points fov maxdist x y heading =
     foldl (\<lambda>filtered_points point.
              if in_view (cone_x point) (cone_y point) fov maxdist x y heading
              then filtered_points @ [point] else filtered_points)
       [] points"

text \<open>
  The overload on points: an index loop that appends \<^verbatim>\<open>{points[i][0], points[i][1]}\<close>.
\<close>

definition filterLocal :: "Point list \<Rightarrow> real \<Rightarrow> real \<Rightarrow> real \<Rightarrow> real \<Rightarrow> real \<Rightarrow> Point list" where
  "filterLocal points fov maxdist x y heading =
     foldl (\<lambda>filtered_points i.
              if in_view (fst (points ! i)) (snd (points ! i)) fov maxdist x y heading
              then filtered_points @ [(fst (points ! i), snd (points ! i))]
              else filtered_points)
       [] [0..<length points]"

text \<open>The three-argument template, instantiated for cones by the constructor.\<close>

definition filterLocal3 :: "Cone list \<Rightarrow> real \<Rightarrow> real \<Rightarrow> Cone list" where
  "filterLocal3 points fov maxdist = filterLocal_cones points fov maxdist 0 0 0"

subsection \<open>\<^verbatim>\<open>triangulate\<close>\<close>

text \<open>
  Modelled from the spec: the two-argument constructor \<^verbatim>\<open>Waypoint(x, y)\<close> is not
  among the source files. It is taken to leave the heading 0; no function below
  reads the heading of a waypoint built by it.
\<close>

definition Waypoint2 :: "real \<Rightarrow> real \<Rightarrow> Waypoint" where
  "Waypoint2 px py = \<lparr>wp_x = px, wp_y = py, wp_heading = 0\<rparr>"

text \<open>
  Modelled from the spec: \<^verbatim>\<open>Waypoint::getDistanceTo\<close> is not among the source
  files; the distances of the specification are Euclidean.
\<close>

definition getDistanceTo :: "Waypoint \<Rightarrow> real \<Rightarrow> real \<Rightarrow> real" where
  "getDistanceTo w px py =
     sqrt ((wp_x w - px) * (wp_x w - px) + (wp_y w - py) * (wp_y w - py))"

text \<open>
  Modelled from the spec: \<^verbatim>\<open>Waypoint::getDistNearestCone\<close> is not among the source
  files; it is ``the minimum distance to any cone'', and plus infinity when there is
  no cone (\<open>triangulate\<close> never calls it so).
\<close>

definition getDistNearestCone :: "Waypoint \<Rightarrow> Cone list \<Rightarrow> efloat" where
  "getDistNearestCone w cs =
     foldl (\<lambda>closest c. min closest (Fin (getDistanceTo w (cone_x c) (cone_y c)))) PInf cs"

text \<open>
  The loop over the waypoints accepted so far: \<^verbatim>\<open>closest_waypoint_dist\<close> starts at
  infinity and takes every smaller distance.
\<close>

definition closest_waypoint_dist :: "Waypoint \<Rightarrow> Point list \<Rightarrow> efloat" where
  "closest_waypoint_dist w wps =
     foldl (\<lambda>closest i.
              let dist = getDistanceTo w (fst (wps ! i)) (snd (wps ! i))
              in if Fin dist < closest then Fin dist else closest)
       PInf [0..<length wps]"

text \<open>
  The body of the inner loop, for the cone \<open>cone\<close> and the step \<open>i\<close>: \<open>candidate\<close>
  is the position \<^verbatim>\<open>(x, y)\<close> it computes, \<open>tri_step\<close> the vector \<^verbatim>\<open>waypoints\<close>
  after it.
\<close>

definition candidate :: "TreeSearchParams \<Rightarrow> Cone \<Rightarrow> nat \<Rightarrow> Point" where
  "candidate params cone i =
     (let angle = real i * pi / 4
      in (cone_x cone + triangulation_radius params * cos angle,
          cone_y cone + triangulation_radius params * sin angle))"

definition tri_step :: "TreeSearchParams \<Rightarrow> Cone list \<Rightarrow> Cone \<Rightarrow> Point list \<Rightarrow> nat \<Rightarrow> Point list" where
  "tri_step params cs cone wps i =
     (let px = fst (candidate params cone i);
          py = snd (candidate params cone i);
          w = Waypoint2 px py;
          closest_cone_dist = getDistNearestCone w cs;
          closest_wp_dist = closest_waypoint_dist w wps
      in if closest_cone_dist > Fin (triangulation_min_cone_dist params) \<and>
            closest_wp_dist > Fin (triangulation_min_waypoint_dist params)
         then wps @ [(px, py)] else wps)"

definition triangulate :: "TreeSearchParams \<Rightarrow> Cone list \<Rightarrow> Point list" where
  "triangulate params cs =
     foldl (\<lambda>wps cone. foldl (tri_step params cs cone) wps [0..<8]) [] cs"

text \<open>The constructor \<^verbatim>\<open>TreeSearch(cones, params)\<close>.\<close>

definition newTreeSearch :: "Cone list \<Rightarrow> TreeSearchParams \<Rightarrow> TreeSearch" where
  "newTreeSearch cs params =
     (let filtered = filterLocal3 cs (field_of_view params) (distance params)
      in \<lparr>ts_params = params, ts_cones = filtered,
          ts_waypoints = triangulate params filtered\<rparr>)"

subsection \<open>The class \<^verbatim>\<open>Path\<close>\<close>

text \<open>
  Modelled from the spec: the class \<^verbatim>\<open>Path\<close> is not among the source files. The
  specification gives it ``cost evaluation, membership test by position, and deep
  copy'', and a waypoint is ``position (x, y) plus heading''. What the two source
  files do not fix is a parameter of the model, collected in \<open>PathClass\<close>: the path
  that the constructor \<^verbatim>\<open>Path()\<close> builds (the empty path of the specification is
  \<open>spec_Path\<close> below), the cost oracle \<^verbatim>\<open>getCost\<close>, and the heading that
  \<^verbatim>\<open>addWaypoint(x, y)\<close> gives to the waypoint it appends.
\<close>

record PathClass =
  Path_new :: Path
  getCost :: "Path \<Rightarrow> efloat"
  new_heading :: "Path \<Rightarrow> real \<Rightarrow> real \<Rightarrow> real"

text \<open>
  Modelled from the spec: \<^verbatim>\<open>Path::createCopy\<close>, the deep copy. Paths are values
  here, so the copy is the path.
\<close>

definition createCopy :: "Path \<Rightarrow> Path" where
  "createCopy p = p"

text \<open>
  Modelled from the spec: \<^verbatim>\<open>Path::addWaypoint\<close> appends a waypoint at the position
  given.
\<close>

definition addWaypoint :: "PathClass \<Rightarrow> Path \<Rightarrow> real \<Rightarrow> real \<Rightarrow> Path" where
  "addWaypoint pc p px py =
     p\<lparr>waypoints := waypoints p @ [\<lparr>wp_x = px, wp_y = py, wp_heading = new_heading pc p px py\<rparr>]\<rparr>"

text \<open>
  Modelled from the spec: \<^verbatim>\<open>Path::hasWaypoint\<close>, the ``membership test by
  position''.
\<close>

definition hasWaypoint :: "Path \<Rightarrow> Waypoint \<Rightarrow> bool" where
  "hasWaypoint p w = list_ex (\<lambda>v. wp_x v = wp_x w \<and> wp_y v = wp_y w) (waypoints p)"

subsection \<open>\<^verbatim>\<open>getPath\<close>\<close>

text \<open>
  The search threads the frontier through its loops. Beside the frontier the model
  keeps a history, which the program does not have: one event for every entry taken
  from the front and one for every call of \<^verbatim>\<open>addNewPath\<close>, each with the size of
  the frontier right after it. Properties of all intermediate states of a search are
  stated on the history.
\<close>

datatype event =
    Dequeued Path efloat nat      \<comment> \<open>path and cost taken from the front, size after\<close>
  | Offered Path efloat bool nat  \<comment> \<open>arguments and result of \<^verbatim>\<open>addNewPath\<close>, size after\<close>

record SearchState =
  path_queue :: "Path PathQueue"
  history :: "event list"

definition offer :: "SearchState \<Rightarrow> Path \<Rightarrow> efloat \<Rightarrow> error + (bool \<times> SearchState)" where
  "offer st p c =
     (case addNewPath (path_queue st) p c of
        Inl e \<Rightarrow> Inl e
      | Inr (added, q) \<Rightarrow>
          Inr (added, \<lparr>path_queue = q,
                       history = history st @ [Offered p c added (length (paths q))]\<rparr>))"

text \<open>
  \<^verbatim>\<open>paths.front()\<close>, \<^verbatim>\<open>costs.front()\<close> and the two \<^verbatim>\<open>erase(begin())\<close>.
\<close>

definition dequeue :: "SearchState \<Rightarrow> error + (Path \<times> efloat \<times> SearchState)" where
  "dequeue st =
     (let q = path_queue st in
      if paths q = [] \<or> costs q = [] then Inl EmptyQueueAccess
      else
        let curr_path = hd (paths q);
            curr_cost = hd (costs q);
            q' = q\<lparr>paths := tl (paths q), costs := tl (costs q)\<rparr>
        in Inr (curr_path, curr_cost,
                \<lparr>path_queue = q',
                 history = history st @ [Dequeued curr_path curr_cost (length (paths q'))]\<rparr>))"

text \<open>
  The loop over \<open>k\<close>. \<open>cands\<close> is what is left of \<^verbatim>\<open>possible_next_waypoints\<close> from
  index \<open>k\<close> on; the flags are \<^verbatim>\<open>no_new_paths\<close> and \<^verbatim>\<open>added_point\<close>. The membership
  test reads the candidate, the appended waypoint is read from the pool
  \<^verbatim>\<open>this->waypoints\<close> at index \<open>k\<close>.
\<close>

fun branch_loop ::
    "PathClass \<Rightarrow> Point list \<Rightarrow> Path \<Rightarrow> Point list \<Rightarrow> nat \<Rightarrow> SearchState \<times> bool \<times> bool
       \<Rightarrow> error + (SearchState \<times> bool \<times> bool)" where
  "branch_loop pc pool curr_path [] k s = Inr s"
| "branch_loop pc pool curr_path (c # cands) k (st, no_new_paths, added_point) =
     (if hasWaypoint curr_path (Waypoint2 (fst c) (snd c)) then
        branch_loop pc pool curr_path cands (Suc k) (st, no_new_paths, added_point)
      else if k < length pool then
        (let new_path = addWaypoint pc (createCopy curr_path) (fst (pool ! k)) (snd (pool ! k));
             new_cost = getCost pc new_path
         in case offer st new_path new_cost of
              Inl e \<Rightarrow> Inl e
            | Inr (added_path, st') \<Rightarrow>
                if added_path then branch_loop pc pool curr_path cands (Suc k) (st', False, True)
                else branch_loop pc pool curr_path cands (Suc k) (st', no_new_paths, added_point))
      else Inl PoolIndexOutOfRange)"

text \<open>The body of the loop over \<open>j\<close>: one entry is taken from the front and expanded.\<close>

definition expand ::
    "PathClass \<Rightarrow> TreeSearchParams \<Rightarrow> Point list \<Rightarrow> SearchState \<times> bool
       \<Rightarrow> error + (SearchState \<times> bool)" where
  "expand pc params pool s =
     (case dequeue (fst s) of
        Inl e \<Rightarrow> Inl e
      | Inr (curr_path, curr_cost, st1) \<Rightarrow>
          if length (waypoints curr_path) > max_waypoints_per_path params then
            (case offer st1 curr_path curr_cost of
               Inl e \<Rightarrow> Inl e
             | Inr (_, st2) \<Rightarrow> Inr (st2, snd s))
          else if waypoints curr_path = [] then Inl EmptyPathBack
          else
            (let last_waypoint = last (waypoints curr_path);
                 possible_next_waypoints =
                   filterLocal pool (waypoint_field_of_view params) (waypoint_distance params)
                     (wp_x last_waypoint) (wp_y last_waypoint) (wp_heading last_waypoint)
             in case branch_loop pc pool curr_path possible_next_waypoints 0
                       (st1, snd s, False) of
                  Inl e \<Rightarrow> Inl e
                | Inr (st2, no_new_paths, added_point) \<Rightarrow>
                    if \<not> added_point then
                      (case offer st2 curr_path curr_cost of
                         Inl e \<Rightarrow> Inl e
                       | Inr (_, st3) \<Rightarrow> Inr (st3, no_new_paths))
                    else Inr (st2, no_new_paths)))"

text \<open>The loop over \<open>j\<close>, with \<open>n\<close> iterations to go.\<close>

fun j_loop ::
    "PathClass \<Rightarrow> TreeSearchParams \<Rightarrow> Point list \<Rightarrow> nat \<Rightarrow> SearchState \<times> bool
       \<Rightarrow> error + (SearchState \<times> bool)" where
  "j_loop pc params pool 0 s = Inr s"
| "j_loop pc params pool (Suc n) s =
     (case expand pc params pool s of
        Inl e \<Rightarrow> Inl e
      | Inr s' \<Rightarrow> j_loop pc params pool n s')"

text \<open>
  One round: \<^verbatim>\<open>no_new_paths = true\<close>, \<^verbatim>\<open>size = path_queue.paths.size()\<close>, then the
  loop over \<open>j\<close>.
\<close>

definition search_round ::
    "PathClass \<Rightarrow> TreeSearchParams \<Rightarrow> Point list \<Rightarrow> SearchState \<Rightarrow> error + (SearchState \<times> bool)" where
  "search_round pc params pool st =
     j_loop pc params pool (length (paths (path_queue st))) (st, True)"

text \<open>The loop over \<open>i\<close>, with \<open>n\<close> rounds to go; it ends early on \<^verbatim>\<open>no_new_paths\<close>.\<close>

fun i_loop ::
    "PathClass \<Rightarrow> TreeSearchParams \<Rightarrow> Point list \<Rightarrow> nat \<Rightarrow> SearchState \<Rightarrow> error + SearchState" where
  "i_loop pc params pool 0 st = Inr st"
| "i_loop pc params pool (Suc n) st =
     (case search_round pc params pool st of
        Inl e \<Rightarrow> Inl e
      | Inr (st', no_new_paths) \<Rightarrow>
          if no_new_paths then Inr st' else i_loop pc params pool n st')"

text \<open>
  \<^verbatim>\<open>getPath\<close> up to the end of its loops: the queue is built, the start path goes in
  with cost infinity, the rounds run.
\<close>

definition search :: "PathClass \<Rightarrow> TreeSearch \<Rightarrow> error + SearchState" where
  "search pc ts =
     (let params = ts_params ts;
          st0 = \<lparr>path_queue = newPathQueue (path_queue_limit params), history = []\<rparr>
      in case offer st0 (Path_new pc) PInf of
           Inl e \<Rightarrow> Inl e
         | Inr (_, st1) \<Rightarrow> i_loop pc params (ts_waypoints ts) (max_search_iterations params) st1)"

text \<open>
  The end of \<^verbatim>\<open>getPath\<close>: the best index (the source calls it \<^verbatim>\<open>getBestPathIndex\<close>,
  path_queue.cpp defines \<^verbatim>\<open>getBestPath\<close>) and a copy of the path there.
\<close>

definition best_of :: "SearchState \<Rightarrow> error + Path" where
  "best_of st =
     (let best_path_index = getBestPath (path_queue st) in
      if best_path_index < length (paths (path_queue st))
      then Inr (createCopy (paths (path_queue st) ! best_path_index))
      else Inl QueueIndexOutOfRange)"

definition getPath :: "PathClass \<Rightarrow> TreeSearch \<Rightarrow> error + Path" where
  "getPath pc ts = (case search pc ts of Inl e \<Rightarrow> Inl e | Inr st \<Rightarrow> best_of st)"

section \<open>Definitions for the statements\<close>

text \<open>
  The angle normalized into \<open>(-\<pi>, \<pi>]\<close>: the one angle of that interval that differs
  from \<open>a\<close> by a whole number of turns (lemmas \<open>normalize_angle_range\<close> and
  \<open>normalize_angle_shift\<close> below).
\<close>

definition normalize_angle :: "real \<Rightarrow> real" where
  "normalize_angle a = a - 2 * pi * of_int \<lceil>(a - pi) / (2 * pi)\<rceil>"





text \<open>
  What \<open>triangulate\<close> keeps true of its vector \<^verbatim>\<open>waypoints\<close>: every entry is
  farther from the nearest cone than the first threshold, and farther from every
  earlier entry than the second.
\<close>

definition tri_inv :: "TreeSearchParams \<Rightarrow> Cone list \<Rightarrow> Point list \<Rightarrow> bool" where
  "tri_inv params cs wps =
     ((\<forall>p \<in> set wps. Fin (triangulation_min_cone_dist params)
                        < getDistNearestCone (Waypoint2 (fst p) (snd p)) cs)
    \<and> (\<forall>j < length wps. \<forall>i < j.
          triangulation_min_waypoint_dist params
            < getDistanceTo (Waypoint2 (fst (wps ! j)) (snd (wps ! j))) (fst (wps ! i)) (snd (wps ! i))))"

text \<open>
  For the history of a search: the size of the frontier that an event records, the
  entries taken from the front, in order, and the paths offered to \<open>addNewPath\<close>, in
  order.
\<close>

fun ev_size :: "event \<Rightarrow> nat" where
  "ev_size (Dequeued p c n) = n"
| "ev_size (Offered p c b n) = n"

fun dequeued :: "event list \<Rightarrow> (Path \<times> efloat) list" where
  "dequeued [] = []"
| "dequeued (Dequeued p c n # es) = (p, c) # dequeued es"
| "dequeued (Offered p c b n # es) = dequeued es"

fun offered :: "event list \<Rightarrow> Path list" where
  "offered [] = []"
| "offered (Dequeued p c n # es) = offered es"
| "offered (Offered p c b n # es) = p # offered es"

definition qsize :: "SearchState \<Rightarrow> nat" where
  "qsize st = length (paths (path_queue st))"

text \<open>
  The invariant of the search for capacity \<open>K\<close>: the two vectors have the same
  length, the capacity is \<open>K\<close>, and neither the frontier nor any size in the history
  exceeds it.
\<close>

definition inv :: "nat \<Rightarrow> SearchState \<Rightarrow> bool" where
  "inv K st =
     (wf_queue (path_queue st) \<and> PATH_QUEUE_LIMIT (path_queue st) = K
      \<and> qsize st \<le> K \<and> (\<forall>e \<in> set (history st). ev_size e \<le> K))"

definition nonempty_paths :: "SearchState \<Rightarrow> bool" where
  "nonempty_paths st = (\<forall>p \<in> set (paths (path_queue st)). waypoints p \<noteq> [])"

text \<open>
  What a loop of the search started in \<open>st\<close> may return: the error of
  \<^verbatim>\<open>waypoints.back()\<close>, and that only when the frontier held a path without
  waypoints, or a state in which the invariant holds and the frontier is no smaller.
\<close>

definition good :: "SearchState \<Rightarrow> nat \<Rightarrow> error + (SearchState \<times> bool) \<Rightarrow> bool" where
  "good st K r =
     (case r of
        Inl e \<Rightarrow> e = EmptyPathBack \<and> \<not> nonempty_paths st
      | Inr (st', nn) \<Rightarrow> inv K st' \<and> qsize st \<le> qsize st'
                         \<and> (nonempty_paths st \<longrightarrow> nonempty_paths st'))"

definition good_end :: "SearchState \<Rightarrow> nat \<Rightarrow> error + SearchState \<Rightarrow> bool" where
  "good_end st K r =
     (case r of
        Inl e \<Rightarrow> e = EmptyPathBack \<and> \<not> nonempty_paths st
      | Inr st' \<Rightarrow> inv K st' \<and> qsize st \<le> qsize st'
                   \<and> (nonempty_paths st \<longrightarrow> nonempty_paths st'))"

text \<open>The paths taken from the front during one round started in \<open>st\<close>.\<close>

definition round_dequeued ::
    "PathClass \<Rightarrow> TreeSearchParams \<Rightarrow> Point list \<Rightarrow> SearchState \<Rightarrow> Path list" where
  "round_dequeued pc params pool st =
     (case search_round pc params pool st of
        Inl e \<Rightarrow> []
      | Inr (st', no_new_paths) \<Rightarrow>
          map fst (dequeued (drop (length (history st)) (history st'))))"

text \<open>
  The events of one round started in \<open>st\<close>. \<open>end_size n evs\<close> is the size of the
  frontier after the events \<open>evs\<close>, from a frontier of size \<open>n\<close>; in
  \<open>appends_only n evs\<close> every accepted offer makes the frontier one larger, that is,
  \<open>addNewPath\<close> appended and did not replace.
\<close>

definition round_events ::
    "PathClass \<Rightarrow> TreeSearchParams \<Rightarrow> Point list \<Rightarrow> SearchState \<Rightarrow> event list" where
  "round_events pc params pool st =
     (case search_round pc params pool st of
        Inl e \<Rightarrow> []
      | Inr (st', no_new_paths) \<Rightarrow> drop (length (history st)) (history st'))"

fun end_size :: "nat \<Rightarrow> event list \<Rightarrow> nat" where
  "end_size n [] = n"
| "end_size n (e # es) = end_size (ev_size e) es"

fun appends_only :: "nat \<Rightarrow> event list \<Rightarrow> bool" where
  "appends_only n [] = True"
| "appends_only n (Dequeued p c m # es) = appends_only m es"
| "appends_only n (Offered p c b m # es) = ((b \<longrightarrow> m = Suc n) \<and> appends_only m es)"

text \<open>
  A part of the search that leads from \<open>st\<close> to \<open>st'\<close> adds the events \<open>evs\<close> to the
  history, and the sizes they record end in the size of the frontier. A frontier is
  \<open>appended\<close> when entries were added at its back, \<open>popped\<close> when in addition its
  first entry was removed.
\<close>

definition step_ok :: "SearchState \<Rightarrow> SearchState \<Rightarrow> event list \<Rightarrow> bool" where
  "step_ok st st' evs =
     (history st' = history st @ evs \<and> end_size (qsize st) evs = qsize st')"

definition appended :: "'p PathQueue \<Rightarrow> 'p PathQueue \<Rightarrow> bool" where
  "appended q q' =
     (\<exists>xs ys. paths q' = paths q @ xs \<and> costs q' = costs q @ ys \<and> length xs = length ys)"

definition popped :: "'p PathQueue \<Rightarrow> 'p PathQueue \<Rightarrow> bool" where
  "popped q q' =
     (\<exists>xs ys. paths q' = tl (paths q) @ xs \<and> costs q' = tl (costs q) @ ys
             \<and> length xs = length ys)"

section \<open>A worked input\<close>

text \<open>
  One cone at the origin; candidates on the unit circle, more than 0.5 from the cone
  and more than 1 apart; the search sees the full circle up to the distance \<open>D\<close>,
  with capacity \<open>K\<close> and \<open>n\<close> rounds. For the class \<^verbatim>\<open>Path\<close>: the constructor gives
  the path of the one waypoint \<open>(0, 0)\<close> with heading 0, the cost of a path is minus
  the number of its waypoints, and an appended waypoint gets the heading 0. With the
  full circle in view the heading of a waypoint has no influence on what is visible
  from it.
\<close>

definition ex_cones :: "Cone list" where
  "ex_cones = [\<lparr>cone_x = 0, cone_y = 0\<rparr>]"

definition ex_params :: "real \<Rightarrow> nat \<Rightarrow> nat \<Rightarrow> TreeSearchParams" where
  "ex_params D K n =
     \<lparr>field_of_view = pi, distance = 10, triangulation_radius = 1,
      triangulation_min_cone_dist = 1 / 2, triangulation_min_waypoint_dist = 1,
      path_queue_limit = K, max_search_iterations = n, max_waypoints_per_path = 10,
      waypoint_field_of_view = 2 * pi, waypoint_distance = D\<rparr>"

definition ex_pool :: "Point list" where
  "ex_pool = [(1, 0), (0, 1), (-1, 0), (0, -1)]"

definition mk_path :: "Point list \<Rightarrow> Path" where
  "mk_path ps = \<lparr>waypoints = map (\<lambda>p. \<lparr>wp_x = fst p, wp_y = snd p, wp_heading = 0\<rparr>) ps\<rparr>"

definition ex_path_class :: PathClass where
  "ex_path_class =
     \<lparr>Path_new = mk_path [(0, 0)],
      getCost = (\<lambda>p. Fin (- real (length (waypoints p)))),
      new_heading = (\<lambda>p px py. 0)\<rparr>"

text \<open>The positions of a path, in order; a path has no duplicate when they are distinct.\<close>

definition positions :: "Path \<Rightarrow> Point list" where
  "positions p = map (\<lambda>w. (wp_x w, wp_y w)) (waypoints p)"

definition no_duplicates :: "Path \<Rightarrow> bool" where
  "no_duplicates p = distinct (positions p)"

text \<open>
  States of the search on the worked input, with capacity 2: after one round; after
  two rounds with \<open>D = 3/2\<close>; after two rounds with \<open>D = 2\<close>; and, with capacity 16
  and \<open>D = 2\<close>, after one round and after two.
\<close>

definition ex_round1 :: SearchState where
  "ex_round1 =
   \<lparr>path_queue = \<lparr>paths = [mk_path [(0, 0), (1, 0)],
        mk_path [(0, 0), (0, 1)]],
      costs = [Fin (- 2), Fin (- 2)], PATH_QUEUE_LIMIT = 2\<rparr>,
   history =
     [Offered (mk_path [(0, 0)]) (PInf) True 1,
      Dequeued (mk_path [(0, 0)]) (PInf) 0,
      Offered (mk_path [(0, 0), (1, 0)]) (Fin (- 2)) True 1,
      Offered (mk_path [(0, 0), (0, 1)]) (Fin (- 2)) True 2,
      Offered (mk_path [(0, 0), (- 1, 0)]) (Fin (- 2)) False 2,
      Offered (mk_path [(0, 0), (0, - 1)]) (Fin (- 2)) False 2]\<rparr>"

definition ex_final_15 :: SearchState where
  "ex_final_15 =
   \<lparr>path_queue = \<lparr>paths = [mk_path [(0, 0), (1, 0), (- 1, 0), (- 1, 0)],
        mk_path [(0, 0), (1, 0), (- 1, 0), (1, 0)]],
      costs = [Fin (- 4), Fin (- 4)], PATH_QUEUE_LIMIT = 2\<rparr>,
   history =
     [Offered (mk_path [(0, 0)]) (PInf) True 1,
      Dequeued (mk_path [(0, 0)]) (PInf) 0,
      Offered (mk_path [(0, 0), (1, 0)]) (Fin (- 2)) True 1,
      Offered (mk_path [(0, 0), (0, 1)]) (Fin (- 2)) True 2,
      Offered (mk_path [(0, 0), (- 1, 0)]) (Fin (- 2)) False 2,
      Offered (mk_path [(0, 0), (0, - 1)]) (Fin (- 2)) False 2,
      Dequeued (mk_path [(0, 0), (1, 0)]) (Fin (- 2)) 1,
      Offered (mk_path [(0, 0), (1, 0), (0, 1)]) (Fin (- 3)) True 2,
      Offered (mk_path [(0, 0), (1, 0), (- 1, 0)]) (Fin (- 3)) True 2,
      Dequeued (mk_path [(0, 0), (1, 0), (- 1, 0)]) (Fin (- 3)) 1,
      Offered (mk_path [(0, 0), (1, 0), (- 1, 0), (1, 0)]) (Fin (- 4)) True 2,
      Offered (mk_path [(0, 0), (1, 0), (- 1, 0), (- 1, 0)]) (Fin (- 4)) True 2]\<rparr>"

definition ex_final_2 :: SearchState where
  "ex_final_2 =
   \<lparr>path_queue = \<lparr>paths = [mk_path [(0, 0), (1, 0), (- 1, 0), (0, - 1)],
        mk_path [(0, 0), (1, 0), (- 1, 0), (0, 1)]],
      costs = [Fin (- 4), Fin (- 4)], PATH_QUEUE_LIMIT = 2\<rparr>,
   history =
     [Offered (mk_path [(0, 0)]) (PInf) True 1,
      Dequeued (mk_path [(0, 0)]) (PInf) 0,
      Offered (mk_path [(0, 0), (1, 0)]) (Fin (- 2)) True 1,
      Offered (mk_path [(0, 0), (0, 1)]) (Fin (- 2)) True 2,
      Offered (mk_path [(0, 0), (- 1, 0)]) (Fin (- 2)) False 2,
      Offered (mk_path [(0, 0), (0, - 1)]) (Fin (- 2)) False 2,
      Dequeued (mk_path [(0, 0), (1, 0)]) (Fin (- 2)) 1,
      Offered (mk_path [(0, 0), (1, 0), (0, 1)]) (Fin (- 3)) True 2,
      Offered (mk_path [(0, 0), (1, 0), (- 1, 0)]) (Fin (- 3)) True 2,
      Offered (mk_path [(0, 0), (1, 0), (0, - 1)]) (Fin (- 3)) False 2,
      Dequeued (mk_path [(0, 0), (1, 0), (- 1, 0)]) (Fin (- 3)) 1,
      Offered (mk_path [(0, 0), (1, 0), (- 1, 0), (0, 1)]) (Fin (- 4)) True 2,
      Offered (mk_path [(0, 0), (1, 0), (- 1, 0), (0, - 1)]) (Fin (- 4)) True 2]\<rparr>"

definition ex_round1_K16 :: SearchState where
  "ex_round1_K16 =
   \<lparr>path_queue = \<lparr>paths = [mk_path [(0, 0), (1, 0)],
        mk_path [(0, 0), (0, 1)],
        mk_path [(0, 0), (- 1, 0)],
        mk_path [(0, 0), (0, - 1)]],
      costs = [Fin (- 2), Fin (- 2), Fin (- 2), Fin (- 2)], PATH_QUEUE_LIMIT = 16\<rparr>,
   history =
     [Offered (mk_path [(0, 0)]) (PInf) True 1,
      Dequeued (mk_path [(0, 0)]) (PInf) 0,
      Offered (mk_path [(0, 0), (1, 0)]) (Fin (- 2)) True 1,
      Offered (mk_path [(0, 0), (0, 1)]) (Fin (- 2)) True 2,
      Offered (mk_path [(0, 0), (- 1, 0)]) (Fin (- 2)) True 3,
      Offered (mk_path [(0, 0), (0, - 1)]) (Fin (- 2)) True 4]\<rparr>"

definition ex_final_K16 :: SearchState where
  "ex_final_K16 =
   \<lparr>path_queue = \<lparr>paths = [mk_path [(0, 0), (1, 0), (0, 1)],
        mk_path [(0, 0), (1, 0), (- 1, 0)],
        mk_path [(0, 0), (1, 0), (0, - 1)],
        mk_path [(0, 0), (0, 1), (1, 0)],
        mk_path [(0, 0), (0, 1), (- 1, 0)],
        mk_path [(0, 0), (0, 1), (0, - 1)],
        mk_path [(0, 0), (- 1, 0), (1, 0)],
        mk_path [(0, 0), (- 1, 0), (0, 1)],
        mk_path [(0, 0), (- 1, 0), (0, - 1)],
        mk_path [(0, 0), (0, - 1), (1, 0)],
        mk_path [(0, 0), (0, - 1), (0, 1)],
        mk_path [(0, 0), (0, - 1), (- 1, 0)]],
      costs = [Fin (- 3), Fin (- 3), Fin (- 3), Fin (- 3), Fin (- 3), Fin (- 3), Fin (- 3), Fin (- 3), Fin (- 3), Fin (- 3), Fin (- 3), Fin (- 3)], PATH_QUEUE_LIMIT = 16\<rparr>,
   history =
     [Offered (mk_path [(0, 0)]) (PInf) True 1,
      Dequeued (mk_path [(0, 0)]) (PInf) 0,
      Offered (mk_path [(0, 0), (1, 0)]) (Fin (- 2)) True 1,
      Offered (mk_path [(0, 0), (0, 1)]) (Fin (- 2)) True 2,
      Offered (mk_path [(0, 0), (- 1, 0)]) (Fin (- 2)) True 3,
      Offered (mk_path [(0, 0), (0, - 1)]) (Fin (- 2)) True 4,
      Dequeued (mk_path [(0, 0), (1, 0)]) (Fin (- 2)) 3,
      Offered (mk_path [(0, 0), (1, 0), (0, 1)]) (Fin (- 3)) True 4,
      Offered (mk_path [(0, 0), (1, 0), (- 1, 0)]) (Fin (- 3)) True 5,
      Offered (mk_path [(0, 0), (1, 0), (0, - 1)]) (Fin (- 3)) True 6,
      Dequeued (mk_path [(0, 0), (0, 1)]) (Fin (- 2)) 5,
      Offered (mk_path [(0, 0), (0, 1), (1, 0)]) (Fin (- 3)) True 6,
      Offered (mk_path [(0, 0), (0, 1), (- 1, 0)]) (Fin (- 3)) True 7,
      Offered (mk_path [(0, 0), (0, 1), (0, - 1)]) (Fin (- 3)) True 8,
      Dequeued (mk_path [(0, 0), (- 1, 0)]) (Fin (- 2)) 7,
      Offered (mk_path [(0, 0), (- 1, 0), (1, 0)]) (Fin (- 3)) True 8,
      Offered (mk_path [(0, 0), (- 1, 0), (0, 1)]) (Fin (- 3)) True 9,
      Offered (mk_path [(0, 0), (- 1, 0), (0, - 1)]) (Fin (- 3)) True 10,
      Dequeued (mk_path [(0, 0), (0, - 1)]) (Fin (- 2)) 9,
      Offered (mk_path [(0, 0), (0, - 1), (1, 0)]) (Fin (- 3)) True 10,
      Offered (mk_path [(0, 0), (0, - 1), (0, 1)]) (Fin (- 3)) True 11,
      Offered (mk_path [(0, 0), (0, - 1), (- 1, 0)]) (Fin (- 3)) True 12]\<rparr>"

section \<open>Properties of the numbers\<close>

lemma efloat_less_simps [simp]:
  "(Fin a < Fin b) = (a < b)"
  "(Fin a < PInf) = True"
  "(PInf < c) = False"
  by (cases c; auto simp: less_efloat_def)+

section \<open>Properties of the frontier\<close>

lemma worst_upto_Suc:
  "worst_upto cs (Suc n) =
     (if cs ! n > cs ! worst_upto cs n then n else worst_upto cs n)"
  by (simp add: worst_upto_def)

lemma worst_upto_0 [simp]: "worst_upto cs 0 = 0"
  by (simp add: worst_upto_def)

lemma worst_upto_less: "0 < n \<Longrightarrow> worst_upto cs n < n"
proof (induction n)
  case 0
  then show ?case by simp
next
  case (Suc n)
  then show ?case
    by (cases "n = 0") (auto simp: worst_upto_Suc less_Suc_eq)
qed

lemma worst_upto_max: "i < n \<Longrightarrow> cs ! i \<le> cs ! worst_upto cs n"
proof (induction n)
  case 0
  then show ?case by simp
next
  case (Suc n)
  show ?case
  proof (cases "i = n")
    case True
    then show ?thesis by (auto simp: worst_upto_Suc)
  next
    case False
    with Suc.prems have "i < n" by simp
    then have "cs ! i \<le> cs ! worst_upto cs n" by (rule Suc.IH)
    then show ?thesis by (auto simp: worst_upto_Suc)
  qed
qed

lemma worst_upto_first: "i < worst_upto cs n \<Longrightarrow> cs ! i < cs ! worst_upto cs n"
proof (induction n)
  case 0
  then show ?case by simp
next
  case (Suc n)
  show ?case
  proof (cases "cs ! n > cs ! worst_upto cs n")
    case True
    with Suc.prems have "i < n" by (simp add: worst_upto_Suc)
    then have "cs ! i \<le> cs ! worst_upto cs n" by (rule worst_upto_max)
    with True show ?thesis by (simp add: worst_upto_Suc)
  next
    case False
    with Suc show ?thesis by (simp add: worst_upto_Suc)
  qed
qed

lemma getWorstPath_props:
  assumes "costs q \<noteq> []"
  shows "getWorstPath q < length (costs q)"
    and "i < length (costs q) \<Longrightarrow> costs q ! i \<le> costs q ! getWorstPath q"
    and "i < getWorstPath q \<Longrightarrow> costs q ! i < costs q ! getWorstPath q"
  using assms
  by (simp_all add: getWorstPath_def worst_upto_less worst_upto_max worst_upto_first)

text \<open>
  Claim C4. For a frontier whose two vectors have the same length and whose capacity
  is at least 1 (the configuration constraint of the specification), and for every
  path and cost: below capacity \<open>addNewPath\<close> appends the entry and returns true;
  at capacity the index of \<open>getWorstPath\<close> is in range, holds a cost that no entry
  exceeds, and every entry before it is strictly cheaper (the first maximum); if the
  new cost is strictly less than the cost there, path and cost at that index are
  replaced and the result is true, and otherwise the result is false and the frontier
  is returned as it was.
\<close>

theorem addNewPath_spec:
  assumes "wf_queue q" and "0 < PATH_QUEUE_LIMIT q"
  shows "(length (paths q) < PATH_QUEUE_LIMIT q \<longrightarrow>
            addNewPath q p c = Inr (True, q\<lparr>paths := paths q @ [p], costs := costs q @ [c]\<rparr>))
       \<and> (PATH_QUEUE_LIMIT q \<le> length (paths q) \<longrightarrow>
            getWorstPath q < length (costs q)
          \<and> (\<forall>i < length (costs q). costs q ! i \<le> costs q ! getWorstPath q)
          \<and> (\<forall>i < getWorstPath q. costs q ! i < costs q ! getWorstPath q)
          \<and> (c < costs q ! getWorstPath q \<longrightarrow>
                addNewPath q p c =
                  Inr (True, q\<lparr>paths := (paths q)[getWorstPath q := p],
                                costs := (costs q)[getWorstPath q := c]\<rparr>))
          \<and> (\<not> c < costs q ! getWorstPath q \<longrightarrow> addNewPath q p c = Inr (False, q)))"
proof (intro conjI impI)
  assume "length (paths q) < PATH_QUEUE_LIMIT q"
  then show "addNewPath q p c = Inr (True, q\<lparr>paths := paths q @ [p], costs := costs q @ [c]\<rparr>)"
    by (simp add: addNewPath_def)
next
  assume full: "PATH_QUEUE_LIMIT q \<le> length (paths q)"
  with assms have ne: "costs q \<noteq> []"
    by (auto simp: wf_queue_def)
  show w: "getWorstPath q < length (costs q)"
    using ne by (rule getWorstPath_props)
  show "\<forall>i < length (costs q). costs q ! i \<le> costs q ! getWorstPath q"
    using ne by (simp add: getWorstPath_props)
  show "\<forall>i < getWorstPath q. costs q ! i < costs q ! getWorstPath q"
    using ne by (simp add: getWorstPath_props)
  from w assms have w': "getWorstPath q < length (paths q)"
    by (simp add: wf_queue_def)
  {
    assume "c < costs q ! getWorstPath q"
    with full w w' show "addNewPath q p c =
        Inr (True, q\<lparr>paths := (paths q)[getWorstPath q := p],
                      costs := (costs q)[getWorstPath q := c]\<rparr>)"
      by (simp add: addNewPath_def Let_def)
  }
  {
    assume "\<not> c < costs q ! getWorstPath q"
    with full w w' show "addNewPath q p c = Inr (False, q)"
      by (simp add: addNewPath_def Let_def)
  }
qed

text \<open>
  The theorem at a full frontier of two entries with equal costs: the worst index is
  the first one, a cheaper path replaces it, a path of the same cost is rejected.
\<close>

theorem addNewPath_spec_witness:
  "wf_queue \<lparr>paths = [1, 2 :: nat], costs = [Fin 7, Fin 7], PATH_QUEUE_LIMIT = 2\<rparr>
   \<and> getWorstPath \<lparr>paths = [1, 2 :: nat], costs = [Fin 7, Fin 7], PATH_QUEUE_LIMIT = 2\<rparr> = 0
   \<and> addNewPath \<lparr>paths = [1, 2 :: nat], costs = [Fin 7, Fin 7], PATH_QUEUE_LIMIT = 2\<rparr> 3 (Fin 6)
       = Inr (True, \<lparr>paths = [3, 2], costs = [Fin 6, Fin 7], PATH_QUEUE_LIMIT = 2\<rparr>)
   \<and> addNewPath \<lparr>paths = [1, 2 :: nat], costs = [Fin 7, Fin 7], PATH_QUEUE_LIMIT = 2\<rparr> 3 (Fin 7)
       = Inr (False, \<lparr>paths = [1, 2], costs = [Fin 7, Fin 7], PATH_QUEUE_LIMIT = 2\<rparr>)"
proof -
  let ?q = "\<lparr>paths = [1, 2 :: nat], costs = [Fin 7, Fin 7], PATH_QUEUE_LIMIT = 2\<rparr>"
  have wf: "wf_queue ?q" by (simp add: wf_queue_def)
  have lim: "0 < PATH_QUEUE_LIMIT ?q" by simp
  have w: "getWorstPath ?q = 0"
    by (simp add: getWorstPath_def worst_upto_def numeral_2_eq_2)
  from addNewPath_spec [OF wf lim, of 3 "Fin 6"] addNewPath_spec [OF wf lim, of 3 "Fin 7"] wf w
  show ?thesis by simp
qed

section \<open>Properties of \<open>filterLocal\<close>\<close>

lemma foldl_push_back:
  "foldl (\<lambda>acc p. if P p then acc @ [g p] else acc) acc xs = acc @ map g (filter P xs)"
  by (induction xs arbitrary: acc) simp_all

lemma foldl_index_loop:
  "foldl (\<lambda>acc i. f acc (xs ! i)) acc [0..<length xs] = foldl f acc xs"
proof -
  have "foldl f acc (map ((!) xs) [0..<length xs])
      = foldl (\<lambda>acc i. f acc (xs ! i)) acc [0..<length xs]"
    by (simp add: foldl_map)
  then show ?thesis by (simp add: map_nth)
qed


lemma filterLocal_filter:
  "filterLocal points fov maxdist x y heading =
     filter (\<lambda>p. in_view (fst p) (snd p) fov maxdist x y heading) points"
proof -
  let ?body = "\<lambda>acc p. if in_view (fst p) (snd p) fov maxdist x y heading
                         then acc @ [(fst p, snd p)] else acc"
  have "filterLocal points fov maxdist x y heading = foldl ?body [] points"
    unfolding filterLocal_def by (rule foldl_index_loop [where f = ?body])
  also have "\<dots> = [] @ map (\<lambda>p. (fst p, snd p))
                        (filter (\<lambda>p. in_view (fst p) (snd p) fov maxdist x y heading) points)"
    by (rule foldl_push_back)
  finally show ?thesis by simp
qed


lemma arctan_quadrants:
  shows "- (pi / 2) < arctan (y / x)" and "arctan (y / x) < pi / 2"
    and "x < 0 \<Longrightarrow> 0 \<le> y \<Longrightarrow> arctan (y / x) \<le> 0"
    and "x < 0 \<Longrightarrow> y < 0 \<Longrightarrow> 0 < arctan (y / x)"
proof -
  show "- (pi / 2) < arctan (y / x)" by (rule arctan_lbound)
  show "arctan (y / x) < pi / 2" by (rule arctan_ubound)
  show "x < 0 \<Longrightarrow> 0 \<le> y \<Longrightarrow> arctan (y / x) \<le> 0"
    by (simp add: arctan_le_zero_iff divide_nonneg_neg)
  show "x < 0 \<Longrightarrow> y < 0 \<Longrightarrow> 0 < arctan (y / x)"
    by (simp add: zero_less_arctan_iff divide_neg_neg)
qed

lemma atan2_bounds: "- pi < atan2 y x \<and> atan2 y x \<le> pi"
proof -
  have "0 < pi" by simp
  with arctan_quadrants [of y x] show ?thesis
    unfolding atan2_def by (auto simp: field_simps)
qed

text \<open>
  The normalized angle lies in \<open>(-\<pi>, \<pi>]\<close>, and it is the only angle there that
  differs from \<open>a\<close> by a whole number of turns.
\<close>

lemma normalize_angle_range: "- pi < normalize_angle a \<and> normalize_angle a \<le> pi"
proof -
  let ?x = "(a - pi) / (2 * pi)"
  have p: "0 < 2 * pi" by simp
  have "?x \<le> of_int \<lceil>?x\<rceil>" "of_int \<lceil>?x\<rceil> - 1 < ?x"
    by linarith+
  then have "a - pi \<le> of_int \<lceil>?x\<rceil> * (2 * pi)"
    "(of_int \<lceil>?x\<rceil> - 1) * (2 * pi) < a - pi"
    using p by (simp_all only: pos_divide_le_eq pos_less_divide_eq)
  then show ?thesis
    by (simp add: normalize_angle_def algebra_simps)
qed







lemma atan2_front: "(\<bar>atan2 y x\<bar> \<le> pi / 2) = (0 \<le> x)"
proof -
  have "0 < pi" by simp
  with arctan_quadrants [of y x] show ?thesis
    unfolding atan2_def by (auto simp: field_simps abs_if)
qed

lemma in_view_origin_pi:
  "in_view px py pi maxdist 0 0 0 = (0 \<le> px \<and> sqrt (px\<^sup>2 + py\<^sup>2) \<le> maxdist)"
  using atan2_bounds [of py px] atan2_front [of py px]
  by (auto simp: in_view_def Let_def power2_eq_square)

lemma in_view_origin_2pi:
  "in_view px py (2 * pi) maxdist 0 0 0 = (sqrt (px\<^sup>2 + py\<^sup>2) \<le> maxdist)"
  using atan2_bounds [of py px]
  by (auto simp: in_view_def Let_def power2_eq_square)

text \<open>
  Claim C7, as the code has it. The test compares the angle with half the field of
  view. With field of view \<open>\<pi>\<close>, origin \<open>(0, 0)\<close> and heading 0, \<open>filterLocal\<close> returns
  the points within the distance bound that lie in the closed half plane in front
  (\<open>x \<ge> 0\<close>, an angle of at most \<open>\<pi>/2\<close> to either side); it is with field of view
  \<open>2\<pi>\<close> that it returns the points within the distance bound at every angle, the
  angle \<open>\<pi>\<close> included.
\<close>

theorem filterLocal_origin:
  "filterLocal points pi maxdist 0 0 0 =
     filter (\<lambda>p. 0 \<le> fst p \<and> sqrt ((fst p)\<^sup>2 + (snd p)\<^sup>2) \<le> maxdist) points
   \<and> filterLocal points (2 * pi) maxdist 0 0 0 =
     filter (\<lambda>p. sqrt ((fst p)\<^sup>2 + (snd p)\<^sup>2) \<le> maxdist) points"
proof
  show "filterLocal points pi maxdist 0 0 0 =
      filter (\<lambda>p. 0 \<le> fst p \<and> sqrt ((fst p)\<^sup>2 + (snd p)\<^sup>2) \<le> maxdist) points"
    unfolding filterLocal_filter by (simp only: in_view_origin_pi)
  show "filterLocal points (2 * pi) maxdist 0 0 0 =
      filter (\<lambda>p. sqrt ((fst p)\<^sup>2 + (snd p)\<^sup>2) \<le> maxdist) points"
    unfolding filterLocal_filter by (simp only: in_view_origin_2pi)
qed

text \<open>
  Claim C7, as stated, fails: the point \<open>(-1, 0)\<close> is at distance 1 from the origin
  and at angle \<open>\<pi>\<close>; with field of view \<open>\<pi>\<close> and distance bound 5 it is not returned.
\<close>

theorem filterLocal_pi_counterexample:
  "filterLocal [(-1, 0)] pi 5 0 0 0
     \<noteq> filter (\<lambda>p. sqrt ((fst p)\<^sup>2 + (snd p)\<^sup>2) \<le> 5) [(-1, 0)]"
  by (simp add: filterLocal_def in_view_def atan2_def Let_def)

section \<open>Properties of \<open>triangulate\<close>\<close>

lemma foldl_closest:
  "(Fin t < foldl (\<lambda>closest p. if Fin (d p) < closest then Fin (d p) else closest) c xs)
     = (Fin t < c \<and> (\<forall>p \<in> set xs. t < d p))"
proof (induction xs arbitrary: c)
  case Nil
  then show ?case by simp
next
  case (Cons a xs)
  show ?case
  proof (cases "Fin (d a) < c")
    case True
    have "t < d a \<Longrightarrow> Fin t < c"
      using True less_trans [of "Fin t" "Fin (d a)" c] by simp
    with True show ?thesis
      by (auto simp: Cons.IH)
  next
    case False
    have "Fin t < c \<Longrightarrow> t < d a"
      using False less_le_trans [of "Fin t" c "Fin (d a)"] by (simp add: not_less)
    with False show ?thesis
      by (auto simp: Cons.IH)
  qed
qed

lemma closest_waypoint_dist_gt:
  "(Fin t < closest_waypoint_dist w wps)
     = (\<forall>p \<in> set wps. t < getDistanceTo w (fst p) (snd p))"
proof -
  have "closest_waypoint_dist w wps =
      foldl (\<lambda>closest p. if Fin (getDistanceTo w (fst p) (snd p)) < closest
                          then Fin (getDistanceTo w (fst p) (snd p)) else closest) PInf wps"
    unfolding closest_waypoint_dist_def Let_def
    by (rule foldl_index_loop [where f = "\<lambda>closest p. if Fin (getDistanceTo w (fst p) (snd p)) < closest
                          then Fin (getDistanceTo w (fst p) (snd p)) else closest"])
  then show ?thesis by (simp add: foldl_closest)
qed
lemma tri_step_cases:
  "tri_step params cs cone wps i =
     (if Fin (triangulation_min_cone_dist params)
           < getDistNearestCone (Waypoint2 (fst (candidate params cone i)) (snd (candidate params cone i))) cs
         \<and> (\<forall>p \<in> set wps. triangulation_min_waypoint_dist params
               < getDistanceTo (Waypoint2 (fst (candidate params cone i)) (snd (candidate params cone i))) (fst p) (snd p))
      then wps @ [candidate params cone i] else wps)"
  by (simp add: tri_step_def Let_def closest_waypoint_dist_gt)

lemma tri_step_inv: "tri_inv params cs wps \<Longrightarrow> tri_inv params cs (tri_step params cs cone wps i)"
  unfolding tri_step_cases tri_inv_def
  by (auto simp: nth_append less_Suc_eq)

lemma tri_inner_inv:
  "tri_inv params cs wps \<Longrightarrow> tri_inv params cs (foldl (tri_step params cs cone) wps is)"
  by (induction "is" arbitrary: wps) (simp_all add: tri_step_inv)

lemma tri_outer_inv:
  "tri_inv params cs wps \<Longrightarrow>
   tri_inv params cs (foldl (\<lambda>wps cone. foldl (tri_step params cs cone) wps [0..<8]) wps cones)"
  by (induction cones arbitrary: wps) (simp_all add: tri_inner_inv)

lemma triangulate_inv: "tri_inv params cs (triangulate params cs)"
  unfolding triangulate_def by (rule tri_outer_inv) (simp add: tri_inv_def)

text \<open>
  Claim C9. In \<open>triangulate\<close> both comparisons are strict. A candidate whose distance
  to the nearest cone equals \<open>triangulation_min_cone_dist\<close> is not appended, and
  neither is a candidate at distance exactly \<open>triangulation_min_waypoint_dist\<close> from a
  waypoint accepted before it: the loop body leaves the vector as it was. Hence
  every waypoint of the result is strictly farther than the first threshold from
  the nearest cone, and strictly farther than the second from every waypoint
  accepted before it.
\<close>

theorem triangulate_strict:
  "(getDistNearestCone (Waypoint2 (fst (candidate params cone i)) (snd (candidate params cone i))) cs
        = Fin (triangulation_min_cone_dist params)
      \<longrightarrow> tri_step params cs cone wps i = wps)
   \<and> ((\<exists>p \<in> set wps.
          getDistanceTo (Waypoint2 (fst (candidate params cone i)) (snd (candidate params cone i)))
              (fst p) (snd p)
            = triangulation_min_waypoint_dist params)
      \<longrightarrow> tri_step params cs cone wps i = wps)
   \<and> (\<forall>p \<in> set (triangulate params cs).
         getDistNearestCone (Waypoint2 (fst p) (snd p)) cs > Fin (triangulation_min_cone_dist params))
   \<and> (\<forall>j < length (triangulate params cs). \<forall>i < j.
         getDistanceTo (Waypoint2 (fst (triangulate params cs ! j)) (snd (triangulate params cs ! j)))
             (fst (triangulate params cs ! i)) (snd (triangulate params cs ! i))
           > triangulation_min_waypoint_dist params)"
proof (intro conjI impI)
  assume "getDistNearestCone (Waypoint2 (fst (candidate params cone i)) (snd (candidate params cone i))) cs
        = Fin (triangulation_min_cone_dist params)"
  then show "tri_step params cs cone wps i = wps"
    by (simp add: tri_step_cases)
next
  assume "\<exists>p \<in> set wps.
          getDistanceTo (Waypoint2 (fst (candidate params cone i)) (snd (candidate params cone i)))
              (fst p) (snd p)
            = triangulation_min_waypoint_dist params"
  then obtain p where "p \<in> set wps"
    and "\<not> triangulation_min_waypoint_dist params
          < getDistanceTo (Waypoint2 (fst (candidate params cone i)) (snd (candidate params cone i)))
              (fst p) (snd p)"
    by auto
  then show "tri_step params cs cone wps i = wps"
    unfolding tri_step_cases by meson
next
  show "\<forall>p \<in> set (triangulate params cs).
         getDistNearestCone (Waypoint2 (fst p) (snd p)) cs > Fin (triangulation_min_cone_dist params)"
    using triangulate_inv [of params cs] by (simp add: tri_inv_def)
next
  show "\<forall>j < length (triangulate params cs). \<forall>i < j.
         getDistanceTo (Waypoint2 (fst (triangulate params cs ! j)) (snd (triangulate params cs ! j)))
             (fst (triangulate params cs ! i)) (snd (triangulate params cs ! i))
           > triangulation_min_waypoint_dist params"
    using triangulate_inv [of params cs] by (simp add: tri_inv_def)
qed

subsection \<open>The pool of the worked input\<close>

lemma cos_sin_eighths:
  "cos (pi / 4) = sqrt 2 / 2" "sin (pi / 4) = sqrt 2 / 2"
  "cos (3 * pi / 4) = - (sqrt 2 / 2)" "sin (3 * pi / 4) = sqrt 2 / 2"
  "cos (5 * pi / 4) = - (sqrt 2 / 2)" "sin (5 * pi / 4) = - (sqrt 2 / 2)"
  "cos (7 * pi / 4) = sqrt 2 / 2" "sin (7 * pi / 4) = - (sqrt 2 / 2)"
proof -
  show c1: "cos (pi / 4) = sqrt 2 / 2" by (rule cos_45)
  show s1: "sin (pi / 4) = sqrt 2 / 2" by (rule sin_45)
  have e3: "3 * pi / 4 = pi - pi / 4" by simp
  show "cos (3 * pi / 4) = - (sqrt 2 / 2)"
    unfolding e3 cos_pi_minus c1 by simp
  show "sin (3 * pi / 4) = sqrt 2 / 2"
    unfolding e3 sin_pi_minus s1 by simp
  have e5: "5 * pi / 4 = pi / 4 + pi" by simp
  show "cos (5 * pi / 4) = - (sqrt 2 / 2)"
    unfolding e5 cos_periodic_pi c1 by simp
  show "sin (5 * pi / 4) = - (sqrt 2 / 2)"
    unfolding e5 sin_periodic_pi s1 by simp
  have e7: "7 * pi / 4 = - (pi / 4) + 2 * pi" by simp
  show "cos (7 * pi / 4) = sqrt 2 / 2"
    unfolding e7 cos_periodic using c1 by simp
  show "sin (7 * pi / 4) = - (sqrt 2 / 2)"
    unfolding e7 sin_periodic using s1 by simp
qed

lemma ex_candidates:
  "candidate (ex_params D K n) \<lparr>cone_x = 0, cone_y = 0\<rparr> 0 = (1, 0)"
  "candidate (ex_params D K n) \<lparr>cone_x = 0, cone_y = 0\<rparr> 1 = (sqrt 2 / 2, sqrt 2 / 2)"
  "candidate (ex_params D K n) \<lparr>cone_x = 0, cone_y = 0\<rparr> 2 = (0, 1)"
  "candidate (ex_params D K n) \<lparr>cone_x = 0, cone_y = 0\<rparr> 3 = (- (sqrt 2 / 2), sqrt 2 / 2)"
  "candidate (ex_params D K n) \<lparr>cone_x = 0, cone_y = 0\<rparr> 4 = (-1, 0)"
  "candidate (ex_params D K n) \<lparr>cone_x = 0, cone_y = 0\<rparr> 5 = (- (sqrt 2 / 2), - (sqrt 2 / 2))"
  "candidate (ex_params D K n) \<lparr>cone_x = 0, cone_y = 0\<rparr> 6 = (0, -1)"
  "candidate (ex_params D K n) \<lparr>cone_x = 0, cone_y = 0\<rparr> 7 = (sqrt 2 / 2, - (sqrt 2 / 2))"
proof -
  have e6: "3 * pi / 2 = pi / 2 + pi" by simp
  have c6: "cos (3 * pi / 2) = 0" "sin (3 * pi / 2) = - 1"
    unfolding e6 cos_periodic_pi sin_periodic_pi by simp_all
  show
  "candidate (ex_params D K n) \<lparr>cone_x = 0, cone_y = 0\<rparr> 0 = (1, 0)"
  "candidate (ex_params D K n) \<lparr>cone_x = 0, cone_y = 0\<rparr> 1 = (sqrt 2 / 2, sqrt 2 / 2)"
  "candidate (ex_params D K n) \<lparr>cone_x = 0, cone_y = 0\<rparr> 2 = (0, 1)"
  "candidate (ex_params D K n) \<lparr>cone_x = 0, cone_y = 0\<rparr> 3 = (- (sqrt 2 / 2), sqrt 2 / 2)"
  "candidate (ex_params D K n) \<lparr>cone_x = 0, cone_y = 0\<rparr> 4 = (-1, 0)"
  "candidate (ex_params D K n) \<lparr>cone_x = 0, cone_y = 0\<rparr> 5 = (- (sqrt 2 / 2), - (sqrt 2 / 2))"
  "candidate (ex_params D K n) \<lparr>cone_x = 0, cone_y = 0\<rparr> 6 = (0, -1)"
  "candidate (ex_params D K n) \<lparr>cone_x = 0, cone_y = 0\<rparr> 7 = (sqrt 2 / 2, - (sqrt 2 / 2))"
    by (simp_all add: candidate_def ex_params_def Let_def cos_sin_eighths c6)
qed

lemma sqrt2_facts: "sqrt 2 * sqrt 2 = 2" "1 < sqrt 2" "sqrt 2 < 2"
proof -
  show "sqrt 2 * sqrt 2 = 2" by simp
  show "1 < sqrt 2" by simp
  show "sqrt 2 < 2" by (rule real_less_lsqrt) simp_all
qed

lemma dist_gt_1: "(1 < getDistanceTo (Waypoint2 a b) c d) = (1 < (a - c) * (a - c) + (b - d) * (b - d))"
  by (simp add: getDistanceTo_def Waypoint2_def)

lemma cone_dist_origin:
  "getDistNearestCone (Waypoint2 a b) [\<lparr>cone_x = 0, cone_y = 0\<rparr>] = Fin (sqrt (a * a + b * b))"
  by (simp add: getDistNearestCone_def getDistanceTo_def Waypoint2_def min_def)

lemma diag_sq: "(sqrt 2 / 2) * (sqrt 2 / 2) = 1 / 2"
  by simp

lemma ex_decisions:
  "\<not> 1 < (sqrt 2 / 2 - 1) * (sqrt 2 / 2 - 1) + (sqrt 2 / 2) * (sqrt 2 / 2)"
  "\<not> 1 < (sqrt 2 / 2) * (sqrt 2 / 2) + (sqrt 2 / 2 - 1) * (sqrt 2 / 2 - 1)"
  "\<not> 1 < (1 - sqrt 2 / 2) * (1 - sqrt 2 / 2) + (sqrt 2 / 2) * (sqrt 2 / 2)"
proof -
  have a: "(sqrt 2 / 2 - 1) * (sqrt 2 / 2 - 1) = 3 / 2 - sqrt 2"
    by (simp add: algebra_simps diag_sq)
  have b: "(1 - sqrt 2 / 2) * (1 - sqrt 2 / 2) = 3 / 2 - sqrt 2"
    by (simp add: algebra_simps diag_sq)
  show "\<not> 1 < (sqrt 2 / 2 - 1) * (sqrt 2 / 2 - 1) + (sqrt 2 / 2) * (sqrt 2 / 2)"
    unfolding a diag_sq using sqrt2_facts(2) by simp
  show "\<not> 1 < (sqrt 2 / 2) * (sqrt 2 / 2) + (sqrt 2 / 2 - 1) * (sqrt 2 / 2 - 1)"
    unfolding a diag_sq using sqrt2_facts(2) by simp
  show "\<not> 1 < (1 - sqrt 2 / 2) * (1 - sqrt 2 / 2) + (sqrt 2 / 2) * (sqrt 2 / 2)"
    unfolding b diag_sq using sqrt2_facts(2) by simp
qed

lemma upt8: "[0..<8] = [0, 1, 2, 3, 4, 5, 6, 7]"
  by (simp add: upt_rec)

lemma ex_steps:
  "tri_step (ex_params D K n) [\<lparr>cone_x = 0, cone_y = 0\<rparr>] \<lparr>cone_x = 0, cone_y = 0\<rparr> [] 0 = [(1, 0)]"
  "tri_step (ex_params D K n) [\<lparr>cone_x = 0, cone_y = 0\<rparr>] \<lparr>cone_x = 0, cone_y = 0\<rparr> [(1, 0)] 1 = [(1, 0)]"
  "tri_step (ex_params D K n) [\<lparr>cone_x = 0, cone_y = 0\<rparr>] \<lparr>cone_x = 0, cone_y = 0\<rparr> [(1, 0)] 2 = [(1, 0), (0, 1)]"
  "tri_step (ex_params D K n) [\<lparr>cone_x = 0, cone_y = 0\<rparr>] \<lparr>cone_x = 0, cone_y = 0\<rparr> [(1, 0), (0, 1)] 3 = [(1, 0), (0, 1)]"
  "tri_step (ex_params D K n) [\<lparr>cone_x = 0, cone_y = 0\<rparr>] \<lparr>cone_x = 0, cone_y = 0\<rparr> [(1, 0), (0, 1)] 4 = [(1, 0), (0, 1), (-1, 0)]"
  "tri_step (ex_params D K n) [\<lparr>cone_x = 0, cone_y = 0\<rparr>] \<lparr>cone_x = 0, cone_y = 0\<rparr> [(1, 0), (0, 1), (-1, 0)] 5 = [(1, 0), (0, 1), (-1, 0)]"
  "tri_step (ex_params D K n) [\<lparr>cone_x = 0, cone_y = 0\<rparr>] \<lparr>cone_x = 0, cone_y = 0\<rparr> [(1, 0), (0, 1), (-1, 0)] 6 = [(1, 0), (0, 1), (-1, 0), (0, -1)]"
  "tri_step (ex_params D K n) [\<lparr>cone_x = 0, cone_y = 0\<rparr>] \<lparr>cone_x = 0, cone_y = 0\<rparr> [(1, 0), (0, 1), (-1, 0), (0, -1)] 7 = [(1, 0), (0, 1), (-1, 0), (0, -1)]"
  unfolding tri_step_cases ex_candidates
  using ex_decisions
  by (simp_all add: cone_dist_origin ex_params_def dist_gt_1 diag_sq)

lemma ex_triangulate: "triangulate (ex_params D K n) ex_cones = ex_pool"
  by (simp add: triangulate_def ex_cones_def upt8 ex_steps ex_steps(2) [unfolded One_nat_def]
        ex_pool_def)

lemma ex_tree_search:
  "newTreeSearch ex_cones (ex_params D K n) =
     \<lparr>ts_params = ex_params D K n, ts_cones = ex_cones, ts_waypoints = ex_pool\<rparr>"
proof -
  have "filterLocal3 ex_cones (field_of_view (ex_params D K n)) (distance (ex_params D K n)) = ex_cones"
    by (simp add: filterLocal3_def filterLocal_cones_def ex_cones_def ex_params_def in_view_def
          atan2_def)
  then show ?thesis
    by (simp add: newTreeSearch_def ex_triangulate)
qed


section \<open>Properties of the search\<close>

lemma offer_inv:
  assumes "inv K st" and "0 < K"
  shows "\<exists>b st'. offer st p c = Inr (b, st') \<and> inv K st' \<and> qsize st \<le> qsize st'
           \<and> (qsize st < K \<longrightarrow> b \<and> qsize st' = Suc (qsize st))
           \<and> (nonempty_paths st \<longrightarrow> waypoints p \<noteq> [] \<longrightarrow> nonempty_paths st')"
proof (cases "qsize st < K")
  case True
  with assms show ?thesis
    by (auto simp: offer_def addNewPath_def inv_def qsize_def wf_queue_def nonempty_paths_def)
next
  case False
  with assms have full: "PATH_QUEUE_LIMIT (path_queue st) \<le> length (paths (path_queue st))"
    and ne: "costs (path_queue st) \<noteq> []"
    by (auto simp: inv_def qsize_def wf_queue_def)
  from ne have w: "getWorstPath (path_queue st) < length (costs (path_queue st))"
    by (rule getWorstPath_props)
  with assms have w': "getWorstPath (path_queue st) < length (paths (path_queue st))"
    by (simp add: inv_def wf_queue_def)
  from assms full w w' False show ?thesis
    by (auto simp: offer_def addNewPath_def Let_def inv_def qsize_def wf_queue_def
          nonempty_paths_def dest: set_update_subset_insert [THEN subsetD])
qed

lemma dequeue_inv:
  assumes "inv K st" and "0 < qsize st"
  shows "\<exists>p c st'. dequeue st = Inr (p, c, st') \<and> inv K st' \<and> Suc (qsize st') = qsize st
           \<and> p = hd (paths (path_queue st))
           \<and> (nonempty_paths st \<longrightarrow> waypoints p \<noteq> [] \<and> nonempty_paths st')"
proof -
  from assms obtain p ps c cs where "paths (path_queue st) = p # ps" "costs (path_queue st) = c # cs"
    by (cases "paths (path_queue st)"; cases "costs (path_queue st)")
       (auto simp: inv_def qsize_def wf_queue_def)
  with assms show ?thesis
    by (auto simp: dequeue_def Let_def inv_def qsize_def wf_queue_def nonempty_paths_def)
qed

lemma addWaypoint_nonempty [simp]: "waypoints (addWaypoint pc p px py) \<noteq> []"
  by (simp add: addWaypoint_def)

lemma branch_loop_inv:
  assumes "inv K st" and "0 < K" and "ap \<or> qsize st < K" and "k + length cands \<le> length pool"
  shows "\<exists>st' nn' ap'. branch_loop pc pool cur cands k (st, nn, ap) = Inr (st', nn', ap')
           \<and> inv K st' \<and> qsize st \<le> qsize st'
           \<and> (\<not> ap' \<longrightarrow> \<not> ap \<and> qsize st' = qsize st \<and> nn' = nn)
           \<and> (ap' \<longrightarrow> \<not> ap \<longrightarrow> qsize st < qsize st')
           \<and> (nonempty_paths st \<longrightarrow> nonempty_paths st')"
  using assms
proof (induction cands arbitrary: k st nn ap)
  case Nil
  then show ?case by simp
next
  case (Cons c cands)
  show ?case
  proof (cases "hasWaypoint cur (Waypoint2 (fst c) (snd c))")
    case True
    from Cons.prems have "Suc k + length cands \<le> length pool" by simp
    from Cons.IH [OF Cons.prems(1) Cons.prems(2) Cons.prems(3) this, of nn] True
    show ?thesis by simp
  next
    case False
    let ?np = "addWaypoint pc (createCopy cur) (fst (pool ! k)) (snd (pool ! k))"
    from Cons.prems have k: "k < length pool" and k': "Suc k + length cands \<le> length pool"
      by simp_all
    from offer_inv [OF Cons.prems(1) Cons.prems(2), of ?np "getCost pc ?np"]
    obtain b st1 where o: "offer st ?np (getCost pc ?np) = Inr (b, st1)"
      and i1: "inv K st1" and s1: "qsize st \<le> qsize st1"
      and b1: "qsize st < K \<longrightarrow> b \<and> qsize st1 = Suc (qsize st)"
      and n1: "nonempty_paths st \<longrightarrow> nonempty_paths st1"
      by auto
    show ?thesis
    proof (cases b)
      case True
      have "True \<or> qsize st1 < K" by simp
      from Cons.IH [OF i1 Cons.prems(2) this k', of False]
      obtain st' nn' ap' where r: "branch_loop pc pool cur cands (Suc k) (st1, False, True) = Inr (st', nn', ap')"
        and r1: "inv K st'" "qsize st1 \<le> qsize st'" "ap'" "nonempty_paths st1 \<longrightarrow> nonempty_paths st'"
        by auto
      have "\<not> ap \<longrightarrow> qsize st < qsize st'"
        using Cons.prems(3) b1 r1(2) by auto
      with False k o True r r1 s1 n1 show ?thesis
        by (auto simp: Let_def)
    next
      case nb: False
      with b1 Cons.prems(3) have ap: "ap" by auto
      then have "ap \<or> qsize st1 < K" by simp
      from Cons.IH [OF i1 Cons.prems(2) this k', of nn]
      obtain st' nn' ap' where r: "branch_loop pc pool cur cands (Suc k) (st1, nn, ap) = Inr (st', nn', ap')"
        and r1: "inv K st'" "qsize st1 \<le> qsize st'" "ap'" "nonempty_paths st1 \<longrightarrow> nonempty_paths st'"
        using ap by auto
      with False k o nb r s1 n1 ap show ?thesis
        by (auto simp: Let_def)
    qed
  qed
qed

lemma length_filterLocal: "length (filterLocal pool fov d x y h) \<le> length pool"
  by (simp add: filterLocal_filter)

lemma expand_inv:
  assumes "inv K st" and "0 < K" and "0 < qsize st"
  shows "good st K (expand pc params pool (st, nn))"
proof -
  from dequeue_inv [OF assms(1) assms(3)]
  obtain p c st1 where d: "dequeue st = Inr (p, c, st1)" and i1: "inv K st1"
    and s1: "Suc (qsize st1) = qsize st"
    and n1: "nonempty_paths st \<longrightarrow> waypoints p \<noteq> [] \<and> nonempty_paths st1"
    by blast
  from assms(1) s1 have room: "qsize st1 < K"
    by (simp add: inv_def)
  show ?thesis
  proof (cases "length (waypoints p) > max_waypoints_per_path params")
    case True
    from offer_inv [OF i1 assms(2), of p c] room
    obtain b st2 where "offer st1 p c = Inr (b, st2)" "inv K st2" "qsize st2 = Suc (qsize st1)"
      "nonempty_paths st1 \<longrightarrow> waypoints p \<noteq> [] \<longrightarrow> nonempty_paths st2"
      by auto
    with d True s1 n1 show ?thesis
      by (auto simp: good_def expand_def)
  next
    case capped: False
    show ?thesis
    proof (cases "waypoints p = []")
      case True
      with d capped n1 show ?thesis
        by (auto simp: good_def expand_def)
    next
      case False
      let ?cands = "filterLocal pool (waypoint_field_of_view params) (waypoint_distance params)
                     (wp_x (last (waypoints p))) (wp_y (last (waypoints p)))
                     (wp_heading (last (waypoints p)))"
      have "False \<or> qsize st1 < K" using room by simp
      moreover have "0 + length ?cands \<le> length pool"
        by (simp add: length_filterLocal)
      ultimately obtain st2 nn2 ap2 where
        b: "branch_loop pc pool p ?cands 0 (st1, nn, False) = Inr (st2, nn2, ap2)"
        and i2: "inv K st2" and s2: "qsize st1 \<le> qsize st2"
        and a2: "\<not> ap2 \<longrightarrow> qsize st2 = qsize st1" "ap2 \<longrightarrow> qsize st1 < qsize st2"
        and n2: "nonempty_paths st1 \<longrightarrow> nonempty_paths st2"
        using branch_loop_inv [OF i1 assms(2), of False 0 ?cands pool pc p nn] by auto
      show ?thesis
      proof (cases ap2)
        case True
        with d capped False b i2 a2 s1 n1 n2 show ?thesis
          by (auto simp: good_def expand_def Let_def)
      next
        case nap: False
        with a2 room have "qsize st2 < K" by simp
        with offer_inv [OF i2 assms(2), of p c]
        obtain b3 st3 where "offer st2 p c = Inr (b3, st3)" "inv K st3" "qsize st3 = Suc (qsize st2)"
          "nonempty_paths st2 \<longrightarrow> waypoints p \<noteq> [] \<longrightarrow> nonempty_paths st3"
          by auto
        with d capped False b nap a2 s1 n1 n2 show ?thesis
          by (auto simp: good_def expand_def Let_def)
      qed
    qed
  qed
qed

lemma j_loop_inv:
  assumes "inv K st" and "0 < K" and "n \<le> qsize st"
  shows "good st K (j_loop pc params pool n (st, nn))"
  using assms
proof (induction n arbitrary: st nn)
  case 0
  then show ?case by (simp add: good_def)
next
  case (Suc n)
  then have "0 < qsize st" by simp
  from expand_inv [OF Suc.prems(1) Suc.prems(2) this, of pc params pool nn]
  have g: "good st K (expand pc params pool (st, nn))" .
  show ?case
  proof (cases "expand pc params pool (st, nn)")
    case (Inl e)
    with g show ?thesis by (simp add: good_def)
  next
    case (Inr s')
    obtain st1 nn1 where s': "s' = (st1, nn1)" by (cases s')
    with g Inr have i1: "inv K st1" and s1: "qsize st \<le> qsize st1"
      and n1: "nonempty_paths st \<longrightarrow> nonempty_paths st1"
      by (simp_all add: good_def)
    from s1 Suc.prems have "n \<le> qsize st1" by simp
    from Suc.IH [OF i1 Suc.prems(2) this, of nn1]
    have "good st1 K (j_loop pc params pool n (st1, nn1))" .
    with Inr s' s1 n1 show ?thesis
      by (auto simp: good_def split: sum.splits)
  qed
qed

lemma search_round_inv:
  assumes "inv K st" and "0 < K"
  shows "good st K (search_round pc params pool st)"
  unfolding search_round_def
  using j_loop_inv [OF assms, of "length (paths (path_queue st))" pc params pool True]
  by (simp add: qsize_def)

lemma i_loop_inv:
  assumes "inv K st" and "0 < K"
  shows "good_end st K (i_loop pc params pool n st)"
  using assms
proof (induction n arbitrary: st)
  case 0
  then show ?case by (simp add: good_end_def)
next
  case (Suc n)
  from search_round_inv [OF Suc.prems, of pc params pool]
  have g: "good st K (search_round pc params pool st)" .
  show ?case
  proof (cases "search_round pc params pool st")
    case (Inl e)
    with g show ?thesis by (simp add: good_def good_end_def)
  next
    case (Inr s')
    obtain st1 nn1 where s': "s' = (st1, nn1)" by (cases s')
    with g Inr have i1: "inv K st1" and s1: "qsize st \<le> qsize st1"
      and n1: "nonempty_paths st \<longrightarrow> nonempty_paths st1"
      by (simp_all add: good_def)
    from Suc.IH [OF i1 Suc.prems(2)]
    have "good_end st1 K (i_loop pc params pool n st1)" .
    with Inr s' i1 s1 n1 show ?thesis
      by (auto simp: good_end_def split: sum.splits)
  qed
qed

lemma best_upto_Suc:
  "best_upto cs (Suc n) = (if cs ! n < cs ! best_upto cs n then n else best_upto cs n)"
  by (simp add: best_upto_def)

lemma best_upto_less: "0 < n \<Longrightarrow> best_upto cs n < n"
proof (induction n)
  case 0
  then show ?case by simp
next
  case (Suc n)
  then show ?case
    by (cases "n = 0") (auto simp: best_upto_Suc best_upto_def less_Suc_eq)
qed

lemma search_inv:
  assumes "0 < path_queue_limit (ts_params ts)"
  shows "case search pc ts of
           Inl e \<Rightarrow> e = EmptyPathBack \<and> waypoints (Path_new pc) = []
         | Inr st \<Rightarrow> inv (path_queue_limit (ts_params ts)) st \<and> 0 < qsize st
                     \<and> (waypoints (Path_new pc) \<noteq> [] \<longrightarrow> nonempty_paths st)"
proof -
  let ?K = "path_queue_limit (ts_params ts)"
  let ?st0 = "\<lparr>path_queue = newPathQueue ?K, history = []\<rparr>"
  have i0: "inv ?K ?st0"
    by (simp add: inv_def newPathQueue_def wf_queue_def qsize_def)
  have q0: "qsize ?st0 = 0" "nonempty_paths ?st0"
    by (simp_all add: qsize_def newPathQueue_def nonempty_paths_def)
  from offer_inv [OF i0 assms, of "Path_new pc" PInf] q0 assms
  obtain b st1 where o: "offer ?st0 (Path_new pc) PInf = Inr (b, st1)"
    and i1: "inv ?K st1" and s1: "qsize st1 = Suc 0"
    and n1: "waypoints (Path_new pc) \<noteq> [] \<longrightarrow> nonempty_paths st1"
    by auto
  have n1': "waypoints (Path_new pc) = [] \<longrightarrow> \<not> nonempty_paths st1"
    using o assms by (auto simp: offer_def addNewPath_def newPathQueue_def nonempty_paths_def)
  from i_loop_inv [OF i1 assms, of pc "ts_params ts" "ts_waypoints ts" "max_search_iterations (ts_params ts)"]
  have "good_end st1 ?K (i_loop pc (ts_params ts) (ts_waypoints ts) (max_search_iterations (ts_params ts)) st1)" .
  with o s1 n1 n1' show ?thesis
    by (auto simp: search_def Let_def good_end_def split: sum.splits)
qed

lemma addNewPath_bound:
  "length (paths q) \<le> PATH_QUEUE_LIMIT q \<Longrightarrow> addNewPath q p c = Inr (b, q') \<Longrightarrow>
   length (paths q') \<le> PATH_QUEUE_LIMIT q'"
  by (auto simp: addNewPath_def Let_def split: if_splits)

text \<open>
  Claim C5. With \<open>path_queue_limit\<close> at least 1, in every search that runs to its
  end every size of the frontier recorded in the history (after each entry taken
  from the front and after each call of \<open>addNewPath\<close>) is at most
  \<open>path_queue_limit\<close>, and so is the size of the final frontier; and no call of
  \<open>addNewPath\<close> on a frontier within its capacity returns one beyond it.
\<close>

theorem frontier_bound:
  assumes "0 < path_queue_limit (ts_params ts)" and "search pc ts = Inr st"
  shows "(\<forall>e \<in> set (history st). ev_size e \<le> path_queue_limit (ts_params ts))
       \<and> length (paths (path_queue st)) \<le> path_queue_limit (ts_params ts)
       \<and> (length (paths q) \<le> PATH_QUEUE_LIMIT q \<longrightarrow> addNewPath q p c = Inr (b, q')
            \<longrightarrow> length (paths q') \<le> PATH_QUEUE_LIMIT q')"
  using search_inv [OF assms(1), of pc] assms(2) addNewPath_bound [of q p c b q']
  by (simp add: inv_def qsize_def)

text \<open>
  Claim C10. With \<open>path_queue_limit\<close> at least 1, neither the search nor \<open>getPath\<close>
  ends in the error of an access to an empty frontier or in the error of a frontier
  index out of range: every entry is taken from a non-empty frontier, and when the
  loops end the frontier is non-empty and the index of \<open>getBestPath\<close> addresses an
  entry of it, which \<open>getPath\<close> returns. When the path of the constructor has a
  waypoint, \<open>getPath\<close> returns a path.
\<close>

theorem queue_access_safe:
  assumes "0 < path_queue_limit (ts_params ts)"
  shows "search pc ts \<noteq> Inl EmptyQueueAccess \<and> search pc ts \<noteq> Inl QueueIndexOutOfRange
       \<and> getPath pc ts \<noteq> Inl EmptyQueueAccess \<and> getPath pc ts \<noteq> Inl QueueIndexOutOfRange
       \<and> (\<forall>st. search pc ts = Inr st \<longrightarrow>
             paths (path_queue st) \<noteq> []
           \<and> getBestPath (path_queue st) < length (paths (path_queue st))
           \<and> getPath pc ts = Inr (createCopy (paths (path_queue st) ! getBestPath (path_queue st))))
       \<and> (waypoints (Path_new pc) \<noteq> [] \<longrightarrow> (\<exists>p. getPath pc ts = Inr p))"
proof (cases "search pc ts")
  case (Inl e)
  with search_inv [OF assms, of pc] show ?thesis
    by (simp add: getPath_def)
next
  case (Inr st)
  with search_inv [OF assms, of pc]
  have i: "inv (path_queue_limit (ts_params ts)) st" and s: "0 < qsize st"
    by simp_all
  then have "0 < length (costs (path_queue st))"
    by (simp add: inv_def qsize_def wf_queue_def)
  then have "getBestPath (path_queue st) < length (costs (path_queue st))"
    unfolding getBestPath_def by (rule best_upto_less)
  with i have "getBestPath (path_queue st) < length (paths (path_queue st))"
    by (simp add: inv_def wf_queue_def)
  with Inr s show ?thesis
    by (auto simp: getPath_def best_of_def Let_def qsize_def)
qed

lemma expand_empty_pool:
  assumes "path_queue st = \<lparr>paths = [s], costs = [c], PATH_QUEUE_LIMIT = K\<rparr>"
    and "0 < K" and "waypoints s \<noteq> []"
  shows "\<exists>st'. expand pc params [] (st, True) = Inr (st', True)
            \<and> path_queue st' = \<lparr>paths = [s], costs = [c], PATH_QUEUE_LIMIT = K\<rparr>"
  using assms
  by (auto simp: expand_def dequeue_def offer_def addNewPath_def Let_def filterLocal_def)

lemma i_loop_empty_pool:
  assumes "path_queue st = \<lparr>paths = [s], costs = [c], PATH_QUEUE_LIMIT = K\<rparr>"
    and "0 < K" and "waypoints s \<noteq> []"
  shows "\<exists>st'. i_loop pc params [] n st = Inr st'
            \<and> path_queue st' = \<lparr>paths = [s], costs = [c], PATH_QUEUE_LIMIT = K\<rparr>"
proof (cases n)
  case 0
  with assms show ?thesis by simp
next
  case (Suc m)
  from expand_empty_pool [OF assms, of pc params]
  obtain st' where "expand pc params [] (st, True) = Inr (st', True)"
    "path_queue st' = \<lparr>paths = [s], costs = [c], PATH_QUEUE_LIMIT = K\<rparr>"
    by blast
  with Suc assms(1) show ?thesis
    by (simp add: search_round_def)
qed

text \<open>
  For no cones at all, \<open>triangulate\<close> returns no waypoints and the pool of the search
  is empty. Every round then takes the one path of the frontier, reads its last
  waypoint, finds no candidate and puts nothing back in its place but the path
  itself: from a constructor path that holds a waypoint \<open>getPath\<close> returns that path.
\<close>

lemma empty_pool_returns_start:
  assumes "0 < path_queue_limit params" and "waypoints (Path_new pc) \<noteq> []"
  shows "triangulate params [] = []
       \<and> ts_waypoints (newTreeSearch [] params) = []
       \<and> getPath pc (newTreeSearch [] params) = Inr (Path_new pc)"
proof -
  let ?K = "path_queue_limit params"
  let ?st1 = "\<lparr>path_queue = \<lparr>paths = [Path_new pc], costs = [PInf], PATH_QUEUE_LIMIT = ?K\<rparr>,
               history = [Offered (Path_new pc) PInf True (Suc 0)]\<rparr>"
  have t: "triangulate params [] = []"
    by (simp add: triangulate_def)
  have ts: "newTreeSearch [] params = \<lparr>ts_params = params, ts_cones = [], ts_waypoints = []\<rparr>"
    by (simp add: newTreeSearch_def filterLocal3_def filterLocal_cones_def t)
  have o: "offer \<lparr>path_queue = newPathQueue ?K, history = []\<rparr> (Path_new pc) PInf = Inr (True, ?st1)"
    using assms(1) by (simp add: offer_def addNewPath_def newPathQueue_def)
  from i_loop_empty_pool [of ?st1 "Path_new pc" PInf ?K pc params "max_search_iterations params"] assms
  obtain st' where l: "i_loop pc params [] (max_search_iterations params) ?st1 = Inr st'"
    and q: "path_queue st' = \<lparr>paths = [Path_new pc], costs = [PInf], PATH_QUEUE_LIMIT = ?K\<rparr>"
    by auto
  have "search pc (newTreeSearch [] params) = Inr st'"
    by (simp add: search_def ts o l)
  moreover have "best_of st' = Inr (Path_new pc)"
    by (simp add: best_of_def q getBestPath_def best_upto_def createCopy_def)
  ultimately show ?thesis
    by (simp add: getPath_def t ts)
qed



subsection \<open>The search on the worked input\<close>

lemma sqrt_le_iff_sq: "0 \<le> d \<Longrightarrow> (sqrt s \<le> d) = (s \<le> d * d)"
proof -
  assume d: "0 \<le> d"
  then have "sqrt (d * d) = d" by simp
  then have "(sqrt s \<le> d) = (sqrt s \<le> sqrt (d * d))" by simp
  also have "\<dots> = (s \<le> d * d)" by (rule real_sqrt_le_iff)
  finally show ?thesis .
qed

lemma in_view_full_circle:
  assumes "0 \<le> d" and "\<bar>h\<bar> \<le> 2 * pi"
  shows "in_view px py (2 * pi) d x y h = ((px - x) * (px - x) + (py - y) * (py - y) \<le> d * d)"
  using atan2_bounds [of "py - y" "px - x"] assms
  by (auto simp: in_view_def Let_def sqrt_le_iff_sq)

lemma ex_visible_15:
  "filterLocal ex_pool (2 * pi) (3 / 2) 0 0 0 = ex_pool"
  "filterLocal ex_pool (2 * pi) (3 / 2) 1 0 0 = [(1, 0), (0, 1), (0, -1)]"
  "filterLocal ex_pool (2 * pi) (3 / 2) 0 1 0 = [(1, 0), (0, 1), (-1, 0)]"
  "filterLocal ex_pool (2 * pi) (3 / 2) (-1) 0 0 = [(0, 1), (-1, 0), (0, -1)]"
  "filterLocal ex_pool (2 * pi) (3 / 2) 0 (-1) 0 = [(1, 0), (-1, 0), (0, -1)]"
  by (simp_all add: filterLocal_filter in_view_full_circle ex_pool_def)

lemma ex_visible_2:
  "filterLocal ex_pool (2 * pi) 2 0 0 0 = ex_pool"
  "filterLocal ex_pool (2 * pi) 2 1 0 0 = ex_pool"
  "filterLocal ex_pool (2 * pi) 2 0 1 0 = ex_pool"
  "filterLocal ex_pool (2 * pi) 2 (-1) 0 0 = ex_pool"
  "filterLocal ex_pool (2 * pi) 2 0 (-1) 0 = ex_pool"
  by (simp_all add: filterLocal_filter in_view_full_circle ex_pool_def)

lemmas run_defs = search_def offer_def addNewPath_def newPathQueue_def search_round_def
  expand_def dequeue_def hasWaypoint_def Waypoint2_def addWaypoint_def createCopy_def
  getWorstPath_def worst_upto_def Let_def mk_path_def ex_path_class_def ex_params_def


lemmas ex_visible = ex_visible_15 [unfolded ex_pool_def] ex_visible_2 [unfolded ex_pool_def]

lemma ex_search_1:
  "search ex_path_class \<lparr>ts_params = ex_params (3 / 2) 2 1, ts_cones = cs, ts_waypoints = ex_pool\<rparr>
     = Inr ex_round1"
  "search ex_path_class \<lparr>ts_params = ex_params 2 2 1, ts_cones = cs, ts_waypoints = ex_pool\<rparr>
     = Inr ex_round1"
  "search ex_path_class \<lparr>ts_params = ex_params 2 16 1, ts_cones = cs, ts_waypoints = ex_pool\<rparr>
     = Inr ex_round1_K16"
  by (simp_all add: run_defs ex_visible ex_pool_def ex_round1_def ex_round1_K16_def
      eval_nat_numeral
      cong: if_weak_cong sum.case_cong_weak split del: if_split)

lemma ex_search_2:
  "search ex_path_class \<lparr>ts_params = ex_params (3 / 2) 2 2, ts_cones = cs, ts_waypoints = ex_pool\<rparr>
     = Inr ex_final_15"
  "search ex_path_class \<lparr>ts_params = ex_params 2 2 2, ts_cones = cs, ts_waypoints = ex_pool\<rparr>
     = Inr ex_final_2"
  by (simp_all add: run_defs ex_visible ex_pool_def ex_final_15_def ex_final_2_def
      eval_nat_numeral
      cong: if_weak_cong sum.case_cong_weak split del: if_split)

lemma ex_round_2:
  "search_round ex_path_class (ex_params 2 2 n) ex_pool ex_round1 = Inr (ex_final_2, False)"
  "search_round ex_path_class (ex_params 2 16 n) ex_pool ex_round1_K16 = Inr (ex_final_K16, False)"
  by (simp_all add: run_defs ex_visible ex_pool_def ex_final_2_def ex_round1_def
      ex_round1_K16_def ex_final_K16_def eval_nat_numeral
      cong: if_weak_cong sum.case_cong_weak split del: if_split)

subsection \<open>Rounds without a replacement\<close>

lemma dequeued_append: "dequeued (a @ b) = dequeued a @ dequeued b"
  by (induction a rule: dequeued.induct) simp_all

lemma appends_only_append:
  "appends_only n (a @ b) = (appends_only n a \<and> appends_only (end_size n a) b)"
  by (induction n a rule: appends_only.induct) simp_all

lemma end_size_append: "end_size n (a @ b) = end_size (end_size n a) b"
  by (induction a arbitrary: n) simp_all

lemma appended_refl [simp]: "appended q q"
  by (simp add: appended_def)

lemma appended_trans: "appended q q' \<Longrightarrow> appended q' q'' \<Longrightarrow> appended q q''"
  unfolding appended_def by fastforce

lemma offer_appends:
  assumes "offer st p c = Inr (b, st')"
  shows "step_ok st st' [Offered p c b (qsize st')]
       \<and> (appends_only (qsize st) [Offered p c b (qsize st')]
            \<longrightarrow> appended (path_queue st) (path_queue st'))"
  using assms
  by (auto simp: offer_def addNewPath_def Let_def step_ok_def qsize_def appended_def
      split: if_splits)

lemma branch_loop_appends:
  assumes "branch_loop pc pool cur cands k (st, nn, ap) = Inr (st', nn', ap')"
  shows "\<exists>evs. step_ok st st' evs \<and> dequeued evs = []
           \<and> (appends_only (qsize st) evs \<longrightarrow> appended (path_queue st) (path_queue st'))"
  using assms
proof (induction cands arbitrary: k st nn ap)
  case Nil
  then have "step_ok st st' [] \<and> dequeued [] = []
           \<and> (appends_only (qsize st) [] \<longrightarrow> appended (path_queue st) (path_queue st'))"
    by (simp add: step_ok_def)
  then show ?case by blast
next
  case (Cons c cands)
  show ?case
  proof (cases "hasWaypoint cur (Waypoint2 (fst c) (snd c))")
    case True
    with Cons.prems have "branch_loop pc pool cur cands (Suc k) (st, nn, ap) = Inr (st', nn', ap')"
      by simp
    then show ?thesis by (rule Cons.IH)
  next
    case False
    let ?np = "addWaypoint pc (createCopy cur) (fst (pool ! k)) (snd (pool ! k))"
    from Cons.prems False obtain b st1 nn1 ap1 where
      o: "offer st ?np (getCost pc ?np) = Inr (b, st1)"
      and r: "branch_loop pc pool cur cands (Suc k) (st1, nn1, ap1) = Inr (st', nn', ap')"
      by (auto simp: Let_def split: if_splits sum.splits)
    from offer_appends [OF o]
    have s1: "step_ok st st1 [Offered ?np (getCost pc ?np) b (qsize st1)]"
      and a1: "appends_only (qsize st) [Offered ?np (getCost pc ?np) b (qsize st1)]
                \<longrightarrow> appended (path_queue st) (path_queue st1)"
      by simp_all
    from Cons.IH [OF r] obtain evs where
      s2: "step_ok st1 st' evs" and d2: "dequeued evs = []"
      and a2: "appends_only (qsize st1) evs \<longrightarrow> appended (path_queue st1) (path_queue st')"
      by blast
    let ?evs = "Offered ?np (getCost pc ?np) b (qsize st1) # evs"
    have "step_ok st st' ?evs"
      using s1 s2 by (simp add: step_ok_def)
    moreover have "dequeued ?evs = []"
      using d2 by simp
    moreover have "appends_only (qsize st) ?evs \<longrightarrow> appended (path_queue st) (path_queue st')"
      using a1 a2 by (auto intro: appended_trans)
    ultimately show ?thesis by blast
  qed
qed

lemma dequeue_events:
  assumes "dequeue st = Inr (p, c, st1)"
  shows "p = hd (paths (path_queue st)) \<and> c = hd (costs (path_queue st))
       \<and> paths (path_queue st) \<noteq> [] \<and> costs (path_queue st) \<noteq> []
       \<and> paths (path_queue st1) = tl (paths (path_queue st))
       \<and> costs (path_queue st1) = tl (costs (path_queue st))
       \<and> step_ok st st1 [Dequeued p c (qsize st1)]"
  using assms
  by (auto simp: dequeue_def Let_def step_ok_def qsize_def split: if_splits)

lemma popped_appended:
  "paths q1 = tl (paths q) \<Longrightarrow> costs q1 = tl (costs q) \<Longrightarrow> appended q1 q' \<Longrightarrow> popped q q'"
  unfolding appended_def popped_def by auto

lemma expand_appends:
  assumes "expand pc params pool (st, nn) = Inr (st', nn')"
  shows "\<exists>evs. step_ok st st' evs
           \<and> dequeued evs = [(hd (paths (path_queue st)), hd (costs (path_queue st)))]
           \<and> (appends_only (qsize st) evs \<longrightarrow> popped (path_queue st) (path_queue st'))"
proof -
  let ?G = ?thesis
  from assms obtain p c st1 where d: "dequeue st = Inr (p, c, st1)"
    by (auto simp: expand_def split: sum.splits)
  note de = dequeue_events [OF d]
  let ?d = "Dequeued p c (qsize st1)"
  have fin: "\<And>evs. step_ok st1 st' evs \<Longrightarrow> dequeued evs = [] \<Longrightarrow>
      (appends_only (qsize st1) evs \<longrightarrow> appended (path_queue st1) (path_queue st')) \<Longrightarrow> ?G"
  proof -
    fix evs
    assume s: "step_ok st1 st' evs" and dq: "dequeued evs = []"
      and a: "appends_only (qsize st1) evs \<longrightarrow> appended (path_queue st1) (path_queue st')"
    have "step_ok st st' (?d # evs)"
      using de s by (simp add: step_ok_def)
    moreover have "dequeued (?d # evs) = [(hd (paths (path_queue st)), hd (costs (path_queue st)))]"
      using de dq by simp
    moreover have "appends_only (qsize st) (?d # evs) \<longrightarrow> popped (path_queue st) (path_queue st')"
      using de a by (auto intro: popped_appended)
    ultimately show ?G by blast
  qed
  show ?thesis
  proof (cases "length (waypoints p) > max_waypoints_per_path params")
    case True
    with assms d obtain b where o: "offer st1 p c = Inr (b, st')"
      by (auto simp: expand_def split: sum.splits)
    from offer_appends [OF o] show ?thesis
      by (intro fin [of "[Offered p c b (qsize st')]"]) simp_all
  next
    case capped: False
    let ?cands = "filterLocal pool (waypoint_field_of_view params) (waypoint_distance params)
                     (wp_x (last (waypoints p))) (wp_y (last (waypoints p)))
                     (wp_heading (last (waypoints p)))"
    from assms d capped obtain st2 nn2 ap2 where
      b: "branch_loop pc pool p ?cands 0 (st1, nn, False) = Inr (st2, nn2, ap2)"
      by (auto simp: expand_def Let_def split: sum.splits if_splits)
    from branch_loop_appends [OF b] obtain evs2 where
      s2: "step_ok st1 st2 evs2" and d2: "dequeued evs2 = []"
      and a2: "appends_only (qsize st1) evs2 \<longrightarrow> appended (path_queue st1) (path_queue st2)"
      by blast
    show ?thesis
    proof (cases ap2)
      case True
      with assms d capped b have "st' = st2"
        by (auto simp: expand_def Let_def split: if_splits)
      with s2 d2 a2 show ?thesis
        by (intro fin [of evs2]) simp_all
    next
      case False
      with assms d capped b obtain b3 where o: "offer st2 p c = Inr (b3, st')"
        by (auto simp: expand_def Let_def split: if_splits sum.splits)
      note oa = offer_appends [OF o]
      let ?evs = "evs2 @ [Offered p c b3 (qsize st')]"
      have "step_ok st1 st' ?evs"
        using s2 oa by (simp add: step_ok_def end_size_append)
      moreover have "dequeued ?evs = []"
        using d2 by (simp add: dequeued_append)
      moreover have "appends_only (qsize st1) ?evs \<longrightarrow> appended (path_queue st1) (path_queue st')"
        using s2 a2 oa by (auto simp: appends_only_append step_ok_def intro: appended_trans)
      ultimately show ?thesis by (rule fin)
    qed
  qed
qed

lemma j_loop_appends:
  assumes "inv K st" and "n \<le> qsize st"
    and "j_loop pc params pool n (st, nn) = Inr (st', nn')"
  shows "\<exists>evs. step_ok st st' evs \<and> length (dequeued evs) = n
           \<and> (appends_only (qsize st) evs \<longrightarrow>
                dequeued evs = zip (take n (paths (path_queue st))) (take n (costs (path_queue st))))"
  using assms
proof (induction n arbitrary: st nn)
  case 0
  then have "step_ok st st' [] \<and> length (dequeued []) = 0 \<and> (appends_only (qsize st) [] \<longrightarrow>
      dequeued [] = zip (take 0 (paths (path_queue st))) (take 0 (costs (path_queue st))))"
    by (simp add: step_ok_def)
  then show ?case by blast
next
  case (Suc n)
  from Suc.prems have pos: "0 < qsize st" by simp
  with Suc.prems(1) have K: "0 < K" by (simp add: inv_def)
  from Suc.prems(3) obtain st1 nn1 where e: "expand pc params pool (st, nn) = Inr (st1, nn1)"
    and l: "j_loop pc params pool n (st1, nn1) = Inr (st', nn')"
    by (auto split: sum.splits)
  from expand_inv [OF Suc.prems(1) K pos, of pc params pool nn] e
  have i1: "inv K st1" and q1: "qsize st \<le> qsize st1"
    by (simp_all add: good_def)
  from q1 Suc.prems(2) have n1: "n \<le> qsize st1" by simp
  from expand_appends [OF e] obtain evs1 where
    s1: "step_ok st st1 evs1"
    and d1: "dequeued evs1 = [(hd (paths (path_queue st)), hd (costs (path_queue st)))]"
    and a1: "appends_only (qsize st) evs1 \<longrightarrow> popped (path_queue st) (path_queue st1)"
    by blast
  from Suc.IH [OF i1 n1 l] obtain evs2 where
    s2: "step_ok st1 st' evs2" and l2: "length (dequeued evs2) = n"
    and a2: "appends_only (qsize st1) evs2 \<longrightarrow>
              dequeued evs2 = zip (take n (paths (path_queue st1))) (take n (costs (path_queue st1)))"
    by blast
  from Suc.prems(1) have wf: "length (costs (path_queue st)) = length (paths (path_queue st))"
    by (simp add: inv_def wf_queue_def)
  from pos wf obtain p ps c cs where
    pc: "paths (path_queue st) = p # ps" "costs (path_queue st) = c # cs"
    by (cases "paths (path_queue st)"; cases "costs (path_queue st)") (auto simp: qsize_def)
  from Suc.prems(2) pc wf have ln: "n \<le> length ps" "n \<le> length cs"
    by (simp_all add: qsize_def)
  have "step_ok st st' (evs1 @ evs2)"
    using s1 s2 by (simp add: step_ok_def end_size_append)
  moreover have "length (dequeued (evs1 @ evs2)) = Suc n"
    using d1 l2 by (simp add: dequeued_append)
  moreover have "appends_only (qsize st) (evs1 @ evs2) \<longrightarrow>
      dequeued (evs1 @ evs2)
        = zip (take (Suc n) (paths (path_queue st))) (take (Suc n) (costs (path_queue st)))"
  proof
    assume "appends_only (qsize st) (evs1 @ evs2)"
    with s1 have b1: "appends_only (qsize st) evs1" and b2: "appends_only (qsize st1) evs2"
      by (simp_all add: appends_only_append step_ok_def)
    from a1 b1 pc obtain xs ys where
      "paths (path_queue st1) = ps @ xs" "costs (path_queue st1) = cs @ ys"
      by (auto simp: popped_def)
    with a2 b2 ln have "dequeued evs2 = zip (take n ps) (take n cs)"
      by simp
    with d1 pc show "dequeued (evs1 @ evs2)
        = zip (take (Suc n) (paths (path_queue st))) (take (Suc n) (costs (path_queue st)))"
      by (simp add: dequeued_append)
  qed
  ultimately show ?case by blast
qed

text \<open>
  A round takes from the front as many entries as the frontier held when the round
  began: the code keeps the size, not the entries. A path that \<open>addNewPath\<close> appends
  goes behind all of them, so as long as every accepted path is appended (the size
  grows by one; no entry is replaced in place), the paths taken from the front are
  the paths the frontier held when the round began, in their order.
\<close>

lemma round_dequeue_count:
  assumes "inv K st"
    and "search_round pc params pool st = Inr (st', no_new_paths)"
  shows "length (round_dequeued pc params pool st) = length (paths (path_queue st))
       \<and> (appends_only (qsize st) (round_events pc params pool st)
            \<longrightarrow> round_dequeued pc params pool st = paths (path_queue st))"
proof -
  from assms(2) have "j_loop pc params pool (qsize st) (st, True) = Inr (st', no_new_paths)"
    by (simp add: search_round_def qsize_def)
  from j_loop_appends [OF assms(1) le_refl this] obtain evs where
    s: "step_ok st st' evs" and l: "length (dequeued evs) = qsize st"
    and a: "appends_only (qsize st) evs \<longrightarrow>
            dequeued evs = zip (take (qsize st) (paths (path_queue st)))
                               (take (qsize st) (costs (path_queue st)))"
    by blast
  from s have h: "history st' = history st @ evs"
    by (simp add: step_ok_def)
  with assms(2) have ev: "round_events pc params pool st = evs"
    by (simp add: round_events_def)
  from h assms(2) have rd: "round_dequeued pc params pool st = map fst (dequeued evs)"
    by (simp add: round_dequeued_def)
  from assms(1) have wf: "length (costs (path_queue st)) = length (paths (path_queue st))"
    by (simp add: inv_def wf_queue_def)
  have "appends_only (qsize st) evs \<longrightarrow> map fst (dequeued evs) = paths (path_queue st)"
    using a wf by (simp add: qsize_def)
  with rd ev l show ?thesis
    by (simp add: qsize_def)
qed

subsection \<open>The branches of a path\<close>

lemma offered_append: "offered (a @ b) = offered a @ offered b"
  by (induction a rule: offered.induct) simp_all

text \<open>
  What the loop over \<open>k\<close> offers to the frontier, started at the index \<open>k\<close> (0 in
  \<open>getPath\<close>): for each index \<open>j\<close> of a candidate that is not in the path, the copy of
  the path with the entry \<open>k + j\<close> of the pool appended. The candidate decides
  whether a branch is built; its coordinates are not what is appended.
\<close>

lemma branch_loop_offers:
  assumes "branch_loop pc pool cur cands k (st, nn, ap) = Inr (st', nn', ap')"
  shows "\<exists>evs. history st' = history st @ evs
           \<and> offered evs =
               map (\<lambda>j. addWaypoint pc (createCopy cur) (fst (pool ! (k + j))) (snd (pool ! (k + j))))
                 (filter (\<lambda>j. \<not> hasWaypoint cur (Waypoint2 (fst (cands ! j)) (snd (cands ! j))))
                    [0..<length cands])"
  using assms
proof (induction cands arbitrary: k st nn ap)
  case Nil
  then show ?case by simp
next
  case (Cons c cands)
  let ?f = "\<lambda>k j. addWaypoint pc (createCopy cur) (fst (pool ! (k + j))) (snd (pool ! (k + j)))"
  let ?P = "\<lambda>cs j. \<not> hasWaypoint cur (Waypoint2 (fst (cs ! j)) (snd (cs ! j)))"
  have shift: "map (?f k) (filter (?P (c # cands)) [0..<length (c # cands)])
      = (if ?P (c # cands) 0 then [?f k 0] else [])
        @ map (?f (Suc k)) (filter (?P cands) [0..<length cands])"
  proof -
    have "[0..<length (c # cands)] = 0 # map Suc [0..<length cands]"
      by (simp add: upt_conv_Cons map_Suc_upt del: upt_Suc)
    then show ?thesis
      by (simp add: filter_map comp_def)
  qed
  show ?case
  proof (cases "hasWaypoint cur (Waypoint2 (fst c) (snd c))")
    case True
    with Cons.prems have "branch_loop pc pool cur cands (Suc k) (st, nn, ap) = Inr (st', nn', ap')"
      by simp
    from Cons.IH [OF this] True shift show ?thesis
      by simp
  next
    case False
    let ?np = "?f k 0"
    from Cons.prems False obtain b st1 nn1 ap1 where
      o: "offer st ?np (getCost pc ?np) = Inr (b, st1)"
      and r: "branch_loop pc pool cur cands (Suc k) (st1, nn1, ap1) = Inr (st', nn', ap')"
      by (auto simp: Let_def split: if_splits sum.splits)
    from o have h1: "history st1 = history st @ [Offered ?np (getCost pc ?np) b (qsize st1)]"
      by (auto simp: offer_def qsize_def split: sum.splits)
    from Cons.IH [OF r] obtain evs where
      h2: "history st' = history st1 @ evs"
      and o2: "offered evs = map (?f (Suc k)) (filter (?P cands) [0..<length cands])"
      by blast
    have "history st' = history st @ (Offered ?np (getCost pc ?np) b (qsize st1) # evs)"
      using h1 h2 by simp
    moreover have "offered (Offered ?np (getCost pc ?np) b (qsize st1) # evs)
        = map (?f k) (filter (?P (c # cands)) [0..<length (c # cands)])"
      using o2 False shift by simp
    ultimately show ?thesis by blast
  qed
qed

subsection \<open>The claims on the worked input\<close>

text \<open>
  Claim C1, on the worked input with \<open>D = 3/2\<close>. The path \<open>(0,0), (1,0)\<close> is taken
  from the front in the second round. From its last waypoint the filter returns the
  candidates \<open>(1,0)\<close>, \<open>(0,1)\<close> and \<open>(0,-1)\<close> of the pool
  \<open>(1,0), (0,1), (-1,0), (0,-1)\<close>. The first is in the path. For the second, at
  index 1, the branch ends in the pool's entry 1, which is the candidate \<open>(0,1)\<close>.
  For the third, \<open>(0,-1)\<close> at index 2, the branch ends in the pool's entry 2, which
  is \<open>(-1,0)\<close>: not the candidate's coordinates.
\<close>

theorem branch_appends_pool_entry:
  "filterLocal ex_pool (2 * pi) (3 / 2) 1 0 0 = [(1, 0), (0, 1), (0, -1)]
   \<and> map_sum id (\<lambda>s. history (fst s))
        (branch_loop ex_path_class ex_pool (mk_path [(0, 0), (1, 0)])
           [(1, 0), (0, 1), (0, -1)] 0
           (\<lparr>path_queue = \<lparr>paths = [mk_path [(0, 0), (0, 1)]], costs = [Fin (- 2)],
                             PATH_QUEUE_LIMIT = 2\<rparr>,
             history = []\<rparr>, True, False))
     = Inr [Offered (mk_path [(0, 0), (1, 0), (0, 1)]) (Fin (- 3)) True 2,
            Offered (mk_path [(0, 0), (1, 0), (-1, 0)]) (Fin (- 3)) True 2]"
  by (simp add: run_defs ex_visible ex_pool_def eval_nat_numeral
      cong: if_weak_cong sum.case_cong_weak split del: if_split)

text \<open>
  Claim C2, on the worked input with \<open>D = 3/2\<close>, capacity 2 and two rounds:
  \<open>getPath\<close> returns the path \<open>(0,0), (1,0), (-1,0), (-1,0)\<close>, which holds the
  position \<open>(-1,0)\<close> twice. From \<open>(-1,0)\<close> the candidate \<open>(0,-1)\<close> is visible at index
  2 and is not in the path; the waypoint appended is the pool's entry 2, \<open>(-1,0)\<close>.
\<close>

theorem getPath_duplicate:
  "getPath ex_path_class (newTreeSearch ex_cones (ex_params (3 / 2) 2 2))
     = Inr (mk_path [(0, 0), (1, 0), (-1, 0), (-1, 0)])
   \<and> \<not> no_duplicates (mk_path [(0, 0), (1, 0), (-1, 0), (-1, 0)])"
proof -
  have "best_of ex_final_15 = Inr (mk_path [(0, 0), (1, 0), (-1, 0), (-1, 0)])"
    by (simp add: best_of_def ex_final_15_def getBestPath_def best_upto_def createCopy_def
          eval_nat_numeral)
  then show ?thesis
    by (simp add: getPath_def ex_tree_search ex_search_2 no_duplicates_def positions_def
          mk_path_def)
qed

text \<open>
  Claim C3, on the worked input with \<open>D = 2\<close> and capacity 2. The second round
  begins with the frontier \<open>(0,0),(1,0)\<close> and \<open>(0,0),(0,1)\<close>, and the loop is set to
  take two entries from the front. The first entry is taken and branches; its
  second branch \<open>(0,0),(1,0),(-1,0)\<close> finds the frontier full and replaces the worst
  entry, which is \<open>(0,0),(0,1)\<close> at index 0. The second entry taken and expanded in
  this round is that branch, created in this round and not in the frontier when the
  round began; the entry \<open>(0,0),(0,1)\<close>, which was, is not expanded.
\<close>

theorem round_expands_new_path:
  "search ex_path_class (newTreeSearch ex_cones (ex_params 2 2 1)) = Inr ex_round1
   \<and> paths (path_queue ex_round1) = [mk_path [(0, 0), (1, 0)], mk_path [(0, 0), (0, 1)]]
   \<and> round_dequeued ex_path_class (ex_params 2 2 2) ex_pool ex_round1
        = [mk_path [(0, 0), (1, 0)], mk_path [(0, 0), (1, 0), (-1, 0)]]
   \<and> mk_path [(0, 0), (1, 0), (-1, 0)] \<notin> set (paths (path_queue ex_round1))
   \<and> mk_path [(0, 0), (0, 1)]
        \<notin> set (round_dequeued ex_path_class (ex_params 2 2 2) ex_pool ex_round1)"
proof (intro conjI)
  have rd: "round_dequeued ex_path_class (ex_params 2 2 2) ex_pool ex_round1
        = [mk_path [(0, 0), (1, 0)], mk_path [(0, 0), (1, 0), (-1, 0)]]"
    by (simp add: round_dequeued_def ex_round_2) (simp add: ex_round1_def ex_final_2_def)
  show "mk_path [(0, 0), (0, 1)]
        \<notin> set (round_dequeued ex_path_class (ex_params 2 2 2) ex_pool ex_round1)"
    unfolding rd by (simp add: mk_path_def)
  show "search ex_path_class (newTreeSearch ex_cones (ex_params 2 2 1)) = Inr ex_round1"
    unfolding ex_tree_search by (rule ex_search_1)
  show "paths (path_queue ex_round1) = [mk_path [(0, 0), (1, 0)], mk_path [(0, 0), (0, 1)]]"
    by (simp add: ex_round1_def)
  show "round_dequeued ex_path_class (ex_params 2 2 2) ex_pool ex_round1
        = [mk_path [(0, 0), (1, 0)], mk_path [(0, 0), (1, 0), (-1, 0)]]"
    by (simp add: round_dequeued_def ex_round_2) (simp add: ex_round1_def ex_final_2_def)
  show "mk_path [(0, 0), (1, 0), (-1, 0)] \<notin> set (paths (path_queue ex_round1))"
    by (simp add: ex_round1_def mk_path_def)
qed

text \<open>
  The second round of the worked input with \<open>D = 2\<close> and capacity 16: the frontier
  holds four paths, every branch is appended, and the round takes the four paths in
  their order.
\<close>

lemma ex_round_K16_dequeues:
  "inv 16 ex_round1_K16
   \<and> search_round ex_path_class (ex_params 2 16 2) ex_pool ex_round1_K16
        = Inr (ex_final_K16, False)
   \<and> appends_only (qsize ex_round1_K16)
        (round_events ex_path_class (ex_params 2 16 2) ex_pool ex_round1_K16)
   \<and> round_dequeued ex_path_class (ex_params 2 16 2) ex_pool ex_round1_K16
        = [mk_path [(0, 0), (1, 0)], mk_path [(0, 0), (0, 1)],
           mk_path [(0, 0), (-1, 0)], mk_path [(0, 0), (0, -1)]]"
proof -
  have i: "inv 16 ex_round1_K16"
    by (simp add: inv_def wf_queue_def qsize_def ex_round1_K16_def)
  have r: "search_round ex_path_class (ex_params 2 16 2) ex_pool ex_round1_K16
        = Inr (ex_final_K16, False)"
    by (rule ex_round_2)
  have a: "appends_only (qsize ex_round1_K16)
        (round_events ex_path_class (ex_params 2 16 2) ex_pool ex_round1_K16)"
    by (simp add: round_events_def r) (simp add: ex_round1_K16_def ex_final_K16_def qsize_def)
  have p: "paths (path_queue ex_round1_K16)
        = [mk_path [(0, 0), (1, 0)], mk_path [(0, 0), (0, 1)],
           mk_path [(0, 0), (-1, 0)], mk_path [(0, 0), (0, -1)]]"
    by (simp add: ex_round1_K16_def)
  from round_dequeue_count [OF i r] i r a p show ?thesis
    by simp
qed

text \<open>
  The theorem at the search on the worked input with \<open>D = 2\<close> and capacity 2, and
  at a full frontier of two entries.
\<close>

theorem frontier_bound_witness:
  "0 < path_queue_limit (ts_params (newTreeSearch ex_cones (ex_params 2 2 2)))
   \<and> search ex_path_class (newTreeSearch ex_cones (ex_params 2 2 2)) = Inr ex_final_2
   \<and> list_all (\<lambda>e. ev_size e \<le> 2) (history ex_final_2)
   \<and> length (paths (path_queue ex_final_2)) \<le> 2
   \<and> addNewPath \<lparr>paths = [1, 2 :: nat], costs = [Fin 7, Fin 7], PATH_QUEUE_LIMIT = 2\<rparr> 3 (Fin 6)
        = Inr (True, \<lparr>paths = [3, 2], costs = [Fin 6, Fin 7], PATH_QUEUE_LIMIT = 2\<rparr>)
   \<and> length (paths \<lparr>paths = [3, 2 :: nat], costs = [Fin 6, Fin 7], PATH_QUEUE_LIMIT = 2\<rparr>) \<le> 2"
proof -
  let ?ts = "newTreeSearch ex_cones (ex_params 2 2 2)"
  let ?q = "\<lparr>paths = [1, 2 :: nat], costs = [Fin 7, Fin 7], PATH_QUEUE_LIMIT = 2\<rparr>"
  let ?q' = "\<lparr>paths = [3, 2 :: nat], costs = [Fin 6, Fin 7], PATH_QUEUE_LIMIT = 2\<rparr>"
  have lim: "0 < path_queue_limit (ts_params ?ts)"
    unfolding ex_tree_search by (simp add: ex_params_def)
  have srch: "search ex_path_class ?ts = Inr ex_final_2"
    unfolding ex_tree_search by (rule ex_search_2)
  have a: "addNewPath ?q 3 (Fin 6) = Inr (True, ?q')"
    by (simp add: addNewPath_def getWorstPath_def worst_upto_def eval_nat_numeral)
  have k: "path_queue_limit (ts_params ?ts) = 2"
    unfolding ex_tree_search by (simp add: ex_params_def)
  from frontier_bound [OF lim srch, of ?q 3 "Fin 6" True ?q'] lim srch a
  show ?thesis
    unfolding k by (simp add: list_all_iff)
qed

text \<open>
  The theorem at the search on the worked input with \<open>D = 2\<close> and capacity 2.
\<close>

theorem queue_access_safe_witness:
  "0 < path_queue_limit (ts_params (newTreeSearch ex_cones (ex_params 2 2 2)))
   \<and> search ex_path_class (newTreeSearch ex_cones (ex_params 2 2 2)) = Inr ex_final_2
   \<and> waypoints (Path_new ex_path_class) \<noteq> []
   \<and> paths (path_queue ex_final_2) \<noteq> []
   \<and> getBestPath (path_queue ex_final_2) < length (paths (path_queue ex_final_2))
   \<and> getPath ex_path_class (newTreeSearch ex_cones (ex_params 2 2 2))
        = Inr (createCopy (paths (path_queue ex_final_2) ! getBestPath (path_queue ex_final_2)))
   \<and> getPath ex_path_class (newTreeSearch ex_cones (ex_params 2 2 2))
        = Inr (mk_path [(0, 0), (1, 0), (-1, 0), (0, -1)])"
proof -
  let ?ts = "newTreeSearch ex_cones (ex_params 2 2 2)"
  have lim: "0 < path_queue_limit (ts_params ?ts)"
    unfolding ex_tree_search by (simp add: ex_params_def)
  have srch: "search ex_path_class ?ts = Inr ex_final_2"
    unfolding ex_tree_search by (rule ex_search_2)
  have ne: "waypoints (Path_new ex_path_class) \<noteq> []"
    by (simp add: ex_path_class_def mk_path_def)
  have b: "createCopy (paths (path_queue ex_final_2) ! getBestPath (path_queue ex_final_2))
         = mk_path [(0, 0), (1, 0), (-1, 0), (0, -1)]"
    by (simp add: ex_final_2_def getBestPath_def best_upto_def createCopy_def eval_nat_numeral)
  from queue_access_safe [OF lim, of ex_path_class] lim srch ne b
  show ?thesis
    by simp
qed


text \<open>
  The theorem on the worked input: with the first threshold raised to 1 the
  candidate \<open>(1, 0)\<close>, at distance exactly 1 from the cone, is not appended; next to
  the waypoint \<open>(2, 0)\<close>, at distance exactly 1, it is not appended either; and in
  the pool of the worked input \<open>(0, 1)\<close> is farther than 1/2 from the cone and
  farther than 1 from \<open>(1, 0)\<close>.
\<close>

theorem triangulate_strict_witness:
  "getDistNearestCone (Waypoint2 1 0) ex_cones = Fin 1
   \<and> tri_step ((ex_params 2 2 2)\<lparr>triangulation_min_cone_dist := 1\<rparr>) ex_cones
        \<lparr>cone_x = 0, cone_y = 0\<rparr> [] 0 = []
   \<and> getDistanceTo (Waypoint2 1 0) 2 0 = 1
   \<and> tri_step (ex_params 2 2 2) ex_cones \<lparr>cone_x = 0, cone_y = 0\<rparr> [(2, 0)] 0 = [(2, 0)]
   \<and> triangulate (ex_params 2 2 2) ex_cones = ex_pool
   \<and> Fin (1 / 2) < getDistNearestCone (Waypoint2 0 1) ex_cones
   \<and> 1 < getDistanceTo (Waypoint2 0 1) 1 0"
proof -
  let ?c = "\<lparr>cone_x = 0, cone_y = 0\<rparr>"
  let ?P1 = "(ex_params 2 2 2)\<lparr>triangulation_min_cone_dist := 1\<rparr>"
  have c0: "candidate (ex_params 2 2 2) ?c 0 = (1, 0)" "candidate ?P1 ?c 0 = (1, 0)"
    by (simp_all add: candidate_def ex_params_def)
  have d1: "getDistNearestCone (Waypoint2 1 0) ex_cones = Fin 1"
    by (simp add: ex_cones_def cone_dist_origin)
  have d2: "getDistanceTo (Waypoint2 1 0) 2 0 = 1"
    by (simp add: getDistanceTo_def Waypoint2_def)
  have t: "triangulate (ex_params 2 2 2) ex_cones = ex_pool"
    by (rule ex_triangulate)
  have m: "triangulation_min_cone_dist ?P1 = 1" "triangulation_min_waypoint_dist (ex_params 2 2 2) = 1"
    "triangulation_min_cone_dist (ex_params 2 2 2) = 1 / 2"
    by (simp_all add: ex_params_def)
  note ts = triangulate_strict [of "ex_params 2 2 2" ?c 0 ex_cones "[(2, 0)]", unfolded t]
  from triangulate_strict [of ?P1 ?c 0 ex_cones "[]"] c0 d1 m
  have A: "tri_step ?P1 ex_cones ?c [] 0 = []"
    by simp
  from ts c0 d2 m have B: "tri_step (ex_params 2 2 2) ex_cones ?c [(2, 0)] 0 = [(2, 0)]"
    by simp
  from ts m have C: "Fin (1 / 2) < getDistNearestCone (Waypoint2 0 1) ex_cones"
    by (simp add: ex_pool_def)
  from ts m have "\<forall>j < length ex_pool. \<forall>i < j.
      1 < getDistanceTo (Waypoint2 (fst (ex_pool ! j)) (snd (ex_pool ! j)))
            (fst (ex_pool ! i)) (snd (ex_pool ! i))"
    by simp
  from this [rule_format, of 1 0]
  have D: "1 < getDistanceTo (Waypoint2 0 1) 1 0"
    by (simp add: ex_pool_def)
  from d1 A d2 B t C D show ?thesis
    by simp
qed

end
